theory Spec2Isabelle
  imports Main "HOL-Library.Word" "HOL-Library.AList" "HOL-Library.Multiset"
begin

chapter \<open>mediadupes: the scan, reduce and copy pipeline of \<^verbatim>\<open>main.go\<close>\<close>

text \<open>
  The development follows \<^verbatim>\<open>main.go\<close>. Every Go function that a property below talks
  about is a HOL function of the same name. What the program reads from outside (the
  directory tree, \<^verbatim>\<open>os.Stat\<close>, exiftool, the outcome of each file operation) is an explicit
  argument, and what it changes (the survivor map, the statistics, the run counters, the
  progress messages, the files of the destination) is a value that is passed along and
  returned.

  Go's \<^verbatim>\<open>int64\<close> is \<^typ>\<open>64 word\<close>: \<open>+\<close> and \<open>-\<close> wrap around as Go's do, and the
  comparison of two sizes is the signed one, on \<^const>\<open>sint\<close>. The per-type counters of
  \<^verbatim>\<open>Stats\<close> are Go \<^verbatim>\<open>int\<close>s, 64 bits wide on the platforms the releases are built for.
\<close>

type_synonym int64 = "64 word"

section \<open>The library functions the program calls\<close>

text \<open>
  The functions of \<^verbatim>\<open>strings\<close> and \<^verbatim>\<open>path/filepath\<close> that \<^verbatim>\<open>main.go\<close> calls, as their
  documentation describes them on Unix (separator \<^verbatim>\<open>/\<close>, no volume names). A string is a
  list of bytes. \<^verbatim>\<open>strings.ToLower\<close> and \<^verbatim>\<open>strings.TrimSpace\<close> are given on ASCII: bytes
  outside it are left alone.
\<close>

definition Separator :: char where
  "Separator = CHR ''/''"

definition lower_byte :: "char \<Rightarrow> char" where
  "lower_byte c =
     (case map_of (zip ''ABCDEFGHIJKLMNOPQRSTUVWXYZ'' ''abcdefghijklmnopqrstuvwxyz'') c of
        None \<Rightarrow> c | Some l \<Rightarrow> l)"

definition ToLower :: "string \<Rightarrow> string" where
  "ToLower s = map lower_byte s"

definition isSpace :: "char \<Rightarrow> bool" where
  "isSpace c \<longleftrightarrow> c \<in> set [CHR '' '', CHR 0x09, CHR 0x0A, CHR 0x0B, CHR 0x0C, CHR 0x0D]"

definition TrimSpace :: "string \<Rightarrow> string" where
  "TrimSpace s = rev (dropWhile isSpace (rev (dropWhile isSpace s)))"

text \<open>\<^verbatim>\<open>strings.Split(s, sep)\<close> for a one-byte separator; the empty string splits into \<^verbatim>\<open>[""]\<close>.\<close>

fun Split :: "string \<Rightarrow> char \<Rightarrow> string list" where
  "Split [] sep = [[]]"
| "Split (c # cs) sep =
     (if c = sep then [] # Split cs sep
      else (case Split cs sep of [] \<Rightarrow> [[c]] | w # ws \<Rightarrow> (c # w) # ws))"

fun strings_Join :: "string list \<Rightarrow> string \<Rightarrow> string" where
  "strings_Join [] sep = []"
| "strings_Join [e] sep = e"
| "strings_Join (e # es) sep = e @ sep @ strings_Join es sep"

fun HasPrefix :: "string \<Rightarrow> string \<Rightarrow> bool" where
  "HasPrefix s [] = True"
| "HasPrefix [] (p # ps) = False"
| "HasPrefix (c # cs) (p # ps) = (c = p \<and> HasPrefix cs ps)"

fun Contains :: "string \<Rightarrow> string \<Rightarrow> bool" where
  "Contains [] substr = (substr = [])"
| "Contains (c # cs) substr = (HasPrefix (c # cs) substr \<or> Contains cs substr)"

definition HasSuffix :: "string \<Rightarrow> string \<Rightarrow> bool" where
  "HasSuffix s suffix \<longleftrightarrow>
     length suffix \<le> length s \<and> drop (length s - length suffix) s = suffix"

definition TrimSuffix :: "string \<Rightarrow> string \<Rightarrow> string" where
  "TrimSuffix s suffix = (if HasSuffix s suffix then take (length s - length suffix) s else s)"

text \<open>
  \<^verbatim>\<open>filepath.Ext\<close> scans from the end of the path to the last separator and returns the
  suffix that starts at the first dot it meets. \<open>Ext_loop\<close> takes the bytes still to be
  scanned, last first, and the bytes already passed.
\<close>

fun Ext_loop :: "string \<Rightarrow> string \<Rightarrow> string" where
  "Ext_loop [] acc = []"
| "Ext_loop (c # r) acc =
     (if c = Separator then [] else if c = CHR ''.'' then c # acc else Ext_loop r (c # acc))"

definition Ext :: "string \<Rightarrow> string" where
  "Ext path = Ext_loop (rev path) []"

text \<open>\<^verbatim>\<open>filepath.Base\<close>: trailing separators are stripped, then the last element is kept.\<close>

definition Base :: "string \<Rightarrow> string" where
  "Base path =
     (if path = [] then ''.''
      else let path = rev (dropWhile (\<lambda>c. c = Separator) (rev path));
               path = rev (takeWhile (\<lambda>c. c \<noteq> Separator) (rev path))
           in if path = [] then [Separator] else path)"

text \<open>
  \<^verbatim>\<open>filepath.Clean\<close>, element by element: empty elements and \<^verbatim>\<open>.\<close> are dropped, \<^verbatim>\<open>..\<close>
  removes the element before it, is dropped at the root of a rooted path and is kept at the
  front of a relative one. \<open>out\<close> holds the elements written so far, last first.
\<close>

fun clean_elems :: "string list \<Rightarrow> bool \<Rightarrow> string list \<Rightarrow> string list" where
  "clean_elems [] rooted out = rev out"
| "clean_elems (e # es) rooted out =
     (if e = [] \<or> e = ''.'' then clean_elems es rooted out
      else if e = ''..'' then
        (case out of
           [] \<Rightarrow> if rooted then clean_elems es rooted [] else clean_elems es rooted [e]
         | e1 # below \<Rightarrow>
             if e1 = ''..'' then clean_elems es rooted (e # out)
             else clean_elems es rooted below)
      else clean_elems es rooted (e # out))"

definition Clean :: "string \<Rightarrow> string" where
  "Clean path =
     (if path = [] then ''.''
      else let rooted = (hd path = Separator);
               out = strings_Join (clean_elems (Split path Separator) rooted []) [Separator]
           in if rooted then Separator # out else if out = [] then ''.'' else out)"

text \<open>\<^verbatim>\<open>filepath.Join\<close> skips leading empty elements and cleans the joined rest.\<close>

fun Join :: "string list \<Rightarrow> string" where
  "Join [] = []"
| "Join (e # es) = (if e = [] then Join es else Clean (strings_Join (e # es) [Separator]))"

definition Dir :: "string \<Rightarrow> string" where
  "Dir path = Clean (rev (dropWhile (\<lambda>c. c \<noteq> Separator) (rev path)))"

text \<open>
  \<^verbatim>\<open>filepath.Rel\<close>: both paths are cleaned, their common leading elements are dropped, and
  the result climbs out of what is left of the base before it descends into what is left
  of the target. It fails (\<open>None\<close>) when only one of the two is rooted, or when the base
  would have to be left through a \<^verbatim>\<open>..\<close> of its own.
\<close>

definition path_elems :: "string \<Rightarrow> string list" where
  "path_elems p = (if p = [] then [] else if p = [Separator] then [[]] else Split p Separator)"

fun drop_common :: "string list \<Rightarrow> string list \<Rightarrow> string list \<times> string list" where
  "drop_common (b # bs) (t # ts) = (if b = t then drop_common bs ts else (b # bs, t # ts))"
| "drop_common bs ts = (bs, ts)"

definition Rel :: "string \<Rightarrow> string \<Rightarrow> string option" where
  "Rel basepath targpath =
     (let base = Clean basepath; targ = Clean targpath in
      if targ = base then Some ''.''
      else let base = (if base = ''.'' then [] else base) in
        if (base \<noteq> [] \<and> hd base = Separator) \<noteq> (targ \<noteq> [] \<and> hd targ = Separator) then None
        else (case drop_common (path_elems base) (path_elems targ) of
                (b # bs, t # ts) \<Rightarrow>
                   if b = ''..'' then None
                   else Some (strings_Join (replicate (length (b # bs)) ''..'' @ t # ts) [Separator])
              | (bs, ts) \<Rightarrow>
                   Some (strings_Join (replicate (length bs) ''..'' @ ts) [Separator])))"

subsection \<open>\<^verbatim>\<open>filepath.Match\<close>\<close>

text \<open>
  The pattern language of \<^verbatim>\<open>filepath.Match\<close>: \<^verbatim>\<open>*\<close> stands for any run of bytes other than
  the separator, \<^verbatim>\<open>?\<close> for one such byte, \<^verbatim>\<open>[...]\<close> for a non-empty class of bytes and
  ranges (negated by a leading \<^verbatim>\<open>^\<close>), a backslash takes the next byte literally, and
  every other byte stands for itself. The pattern is read byte by byte into tokens;
  \<open>pstate\<close> records how far into a class or an escape the reader is. A pattern that ends
  inside a class or after a backslash, or whose class is malformed, is bad. The program
  drops the error of \<^verbatim>\<open>Match\<close> and keeps the boolean, which is \<^verbatim>\<open>false\<close> for a bad pattern;
  \<open>Match\<close> is that boolean.
\<close>

datatype gtok = Star | Quest | Lit char | Class bool "(char \<times> char) list"

datatype pstate =
    Top | TopEsc | ClsStart
  | Cls bool "(char \<times> char) list"
  | ClsLoEsc bool "(char \<times> char) list"
  | ClsAfterLo bool "(char \<times> char) list" char
  | ClsHi bool "(char \<times> char) list" char
  | ClsHiEsc bool "(char \<times> char) list" char

definition cls_item :: "bool \<Rightarrow> (char \<times> char) list \<Rightarrow> char \<Rightarrow> (pstate \<times> gtok list) option" where
  "cls_item neg rs c =
     (if c = CHR '']'' then (if rs = [] then None else Some (Top, [Class neg rs]))
      else if c = CHR ''-'' then None
      else if c = CHR 0x5C then Some (ClsLoEsc neg rs, [])
      else Some (ClsAfterLo neg rs c, []))"

definition pat_step :: "pstate \<Rightarrow> char \<Rightarrow> (pstate \<times> gtok list) option" where
  "pat_step st c =
     (case st of
        Top \<Rightarrow>
          if c = CHR ''*'' then Some (Top, [Star])
          else if c = CHR ''?'' then Some (Top, [Quest])
          else if c = CHR ''['' then Some (ClsStart, [])
          else if c = CHR 0x5C then Some (TopEsc, [])
          else Some (Top, [Lit c])
      | TopEsc \<Rightarrow> Some (Top, [Lit c])
      | ClsStart \<Rightarrow> if c = CHR ''^'' then Some (Cls True [], []) else cls_item False [] c
      | Cls neg rs \<Rightarrow> cls_item neg rs c
      | ClsLoEsc neg rs \<Rightarrow> Some (ClsAfterLo neg rs c, [])
      | ClsAfterLo neg rs lo \<Rightarrow>
          if c = CHR ''-'' then Some (ClsHi neg rs lo, []) else cls_item neg (rs @ [(lo, lo)]) c
      | ClsHi neg rs lo \<Rightarrow>
          if c = CHR ''-'' \<or> c = CHR '']'' then None
          else if c = CHR 0x5C then Some (ClsHiEsc neg rs lo, [])
          else Some (Cls neg (rs @ [(lo, c)]), [])
      | ClsHiEsc neg rs lo \<Rightarrow> Some (Cls neg (rs @ [(lo, c)]), []))"

fun parse_pattern :: "pstate \<Rightarrow> string \<Rightarrow> gtok list option" where
  "parse_pattern st [] = (if st = Top then Some [] else None)"
| "parse_pattern st (c # cs) =
     (case pat_step st c of
        None \<Rightarrow> None
      | Some (st', out) \<Rightarrow>
          (case parse_pattern st' cs of None \<Rightarrow> None | Some ts \<Rightarrow> Some (out @ ts)))"

definition in_ranges :: "(char \<times> char) list \<Rightarrow> char \<Rightarrow> bool" where
  "in_ranges rs c \<longleftrightarrow>
     list_ex (\<lambda>r. (of_char (fst r) :: nat) \<le> of_char c \<and> (of_char c :: nat) \<le> of_char (snd r)) rs"

fun match_toks :: "gtok list \<Rightarrow> string \<Rightarrow> bool" where
  "match_toks [] s = (s = [])"
| "match_toks (Star # ts) s =
     (match_toks ts s \<or>
      (case s of [] \<Rightarrow> False | c # cs \<Rightarrow> c \<noteq> Separator \<and> match_toks (Star # ts) cs))"
| "match_toks (Quest # ts) s =
     (case s of [] \<Rightarrow> False | c # cs \<Rightarrow> c \<noteq> Separator \<and> match_toks ts cs)"
| "match_toks (Lit a # ts) s =
     (case s of [] \<Rightarrow> False | c # cs \<Rightarrow> a = c \<and> match_toks ts cs)"
| "match_toks (Class neg rs # ts) s =
     (case s of [] \<Rightarrow> False | c # cs \<Rightarrow> in_ranges rs c \<noteq> neg \<and> match_toks ts cs)"

definition Match :: "string \<Rightarrow> string \<Rightarrow> bool" where
  "Match pattern name =
     (case parse_pattern Top pattern of None \<Rightarrow> False | Some ts \<Rightarrow> match_toks ts name)"

subsection \<open>The directory tree and \<^verbatim>\<open>filepath.WalkDir\<close>\<close>

text \<open>
  What \<^verbatim>\<open>os.Lstat\<close> and \<^verbatim>\<open>os.ReadDir\<close> report below the source root. A directory carries
  the entries \<^verbatim>\<open>ReadDir\<close> delivers, in the order it delivers them, and the error it
  returns with them, if any (an unreadable directory delivers none). Everything that is
  not a directory is a \<open>File\<close>. The root is either absent (\<^verbatim>\<open>Lstat\<close> fails) or an entry
  whose own name is not used: its path is the root string the program was given.
\<close>

datatype entry = File string | Directory string "entry list" "string option"

fun entry_name :: "entry \<Rightarrow> string" where
  "entry_name (File n) = n"
| "entry_name (Directory n dirs rerr) = n"

fun IsDir :: "entry \<Rightarrow> bool" where
  "IsDir (File n) = False"
| "IsDir (Directory n dirs rerr) = True"

datatype fsroot = LstatErr string | Present entry

text \<open>
  \<^verbatim>\<open>os.ReadDir(source)\<close>, as the non-recursive branch calls it: the entries and the error.
\<close>

fun ReadDir :: "fsroot \<Rightarrow> entry list \<times> string option" where
  "ReadDir (LstatErr e) = ([], Some e)"
| "ReadDir (Present (File n)) = ([], Some ''not a directory'')"
| "ReadDir (Present (Directory n dirs rerr)) = (dirs, rerr)"

text \<open>
  The callback of \<^verbatim>\<open>WalkDir\<close> returns \<^verbatim>\<open>nil\<close>, \<^verbatim>\<open>SkipDir\<close>, \<^verbatim>\<open>SkipAll\<close> or another error. It
  is called either with an entry and no error (\<open>Entry\<close>, carrying \<^verbatim>\<open>d.IsDir()\<close>) or with
  an error (\<open>Failed\<close>: the \<^verbatim>\<open>Lstat\<close> of the root failed, or the \<^verbatim>\<open>ReadDir\<close> of a directory
  already visited did). The callbacks of this program test the error before anything
  else, so the entry that comes with an error is left out. The callback's effects go
  through a state \<open>'s\<close>.
\<close>

datatype walk_ret = RetNil | SkipDir | SkipAll | RetErr string

datatype walk_arg = Entry bool | Failed string

type_synonym 's WalkDirFunc = "string \<Rightarrow> walk_arg \<Rightarrow> 's \<Rightarrow> walk_ret \<times> 's"

text \<open>
  \<^verbatim>\<open>walkDir\<close> of the library: the callback is called on the entry; a directory is then
  read, the callback is called a second time when reading failed, and the delivered
  entries are walked in turn. \<^verbatim>\<open>SkipDir\<close> from a directory skips it, \<^verbatim>\<open>SkipDir\<close> from a
  file skips the rest of its directory, any other non-nil result stops the walk.
\<close>

fun walkDir :: "string \<Rightarrow> entry \<Rightarrow> 's WalkDirFunc \<Rightarrow> 's \<Rightarrow> walk_ret \<times> 's"
  and walkDir_entries :: "string \<Rightarrow> entry list \<Rightarrow> 's WalkDirFunc \<Rightarrow> 's \<Rightarrow> walk_ret \<times> 's" where
  "walkDir path (File n) fn s = fn path (Entry False) s"
| "walkDir path (Directory n dirs rerr) fn s =
     (case fn path (Entry True) s of (r, s1) \<Rightarrow>
        if r \<noteq> RetNil then (if r = SkipDir then RetNil else r, s1)
        else (case rerr of
                None \<Rightarrow> walkDir_entries path dirs fn s1
              | Some e \<Rightarrow>
                  (case fn path (Failed e) s1 of (r2, s2) \<Rightarrow>
                     if r2 \<noteq> RetNil then (if r2 = SkipDir then RetNil else r2, s2)
                     else walkDir_entries path dirs fn s2)))"
| "walkDir_entries path [] fn s = (RetNil, s)"
| "walkDir_entries path (d1 # ds) fn s =
     (case walkDir (Join [path, entry_name d1]) d1 fn s of (r, s1) \<Rightarrow>
        if r \<noteq> RetNil then (if r = SkipDir then RetNil else r, s1)
        else walkDir_entries path ds fn s1)"

text \<open>\<^verbatim>\<open>filepath.WalkDir\<close>: the error it returns (\<open>None\<close> for \<^verbatim>\<open>nil\<close>) and the final state.\<close>

definition WalkDir :: "fsroot \<Rightarrow> string \<Rightarrow> 's WalkDirFunc \<Rightarrow> 's \<Rightarrow> string option \<times> 's" where
  "WalkDir fs root fn s =
     (case (case fs of LstatErr e \<Rightarrow> fn root (Failed e) s | Present d \<Rightarrow> walkDir root d fn s) of
        (r, s') \<Rightarrow> (case r of RetErr e \<Rightarrow> Some e | _ \<Rightarrow> None, s'))"

section \<open>The data model\<close>

text \<open>
  \<^verbatim>\<open>type FileInfo struct\<close>. \<^verbatim>\<open>CreationDate\<close> is a \<^verbatim>\<open>time.Time\<close>; the program only asks
  whether it is the zero time and hands it to \<^verbatim>\<open>os.Chtimes\<close>, so it is a natural number
  with \<open>0\<close> for \<^verbatim>\<open>time.Time{}\<close>.
\<close>

record FileInfo =
  Path :: string
  RelPath :: string
  Size :: int64
  HasMeta :: bool
  BaseName :: string
  CreationDate :: nat
  IsImage :: bool

text \<open>\<^verbatim>\<open>type Stats struct\<close>.\<close>

record Stats =
  TotalSize :: int64
  UniqueSize :: int64
  TotalImages :: int64
  TotalVideos :: int64
  UniqueImages :: int64
  UniqueVideos :: int64
  WithMeta :: int64
  WithoutMeta :: int64

text \<open>
  \<^verbatim>\<open>map[string]*FileInfo\<close>. The map is an association list with distinct keys
  (\<^const>\<open>AList.update\<close> overwrites the entry of a key that is present and appends a new
  one otherwise), read through \<^const>\<open>map_of\<close>. The order of the list stands for one of
  the iteration orders Go may pick; two survivor maps are the same map when their
  \<^const>\<open>map_of\<close> agree. Each iteration of \<^verbatim>\<open>for info := range resultChan\<close> has an \<^verbatim>\<open>info\<close>
  of its own (the loop-variable rule of Go 1.22 and later), so the \<^verbatim>\<open>&info\<close> stored in the
  map keeps denoting the record of that iteration, and the list holds the records.
\<close>

type_synonym SurvivorMap = "(string \<times> FileInfo) list"

text \<open>
  \<^verbatim>\<open>type progressMsg struct\<close>. The summary is a text rendered from numbers (with float
  formatting and terminal styles); the numbers are kept, the rendering is not. The field
  \<^verbatim>\<open>done\<close> is \<open>is_done\<close> here.
\<close>

datatype summary_text =
    NoSummary
  | PlanSummary int64 int64 Stats
  | CompleteSummary int64 int64 int64 int64 int64

record progressMsg =
  stage :: string
  current :: int64
  total :: int64
  is_done :: bool
  summary :: summary_text
  currentFile :: string
  errorFile :: string
  errorMsg :: string

text \<open>
  The package-level variables (\<^verbatim>\<open>processed\<close>, \<^verbatim>\<open>unique\<close>, \<^verbatim>\<open>copied\<close>, \<^verbatim>\<open>failedScan\<close>,
  \<^verbatim>\<open>failedCopy\<close>, \<^verbatim>\<open>progChan\<close>) and the files the copy stage reads and writes. \<open>progChan\<close>
  is the list of the messages sent so far. A regular file is known by its identity, not by
  a path: two paths may name one file (another spelling of the path, a symbolic link, a
  hard link, a file system that ignores letter case), and \<open>file_id\<close> below takes a path to
  the identity of the file it names. \<open>files\<close> maps an identity to the bytes of the file,
  \<open>mtimes\<close> to the time \<^verbatim>\<open>os.Chtimes\<close> gave it, and \<open>made_dirs\<close> lists the directories
  \<^verbatim>\<open>os.MkdirAll\<close> was asked for with success.
\<close>

record World =
  processed :: int64
  unique :: int64
  copied :: int64
  failedScan :: int64
  failedCopy :: int64
  progChan :: "progressMsg list"
  files :: "string \<rightharpoonup> string"
  mtimes :: "string \<rightharpoonup> nat"
  made_dirs :: "string list"

text \<open>
  What the operating system and exiftool answer. An \<open>oserror\<close> is the error text and
  whether \<^verbatim>\<open>os.IsNotExist\<close> holds of it. \<open>os_Stat\<close> is \<^verbatim>\<open>os.Stat\<close> (the error, or the
  size); \<open>tree\<close> is the directory tree at the source root; \<open>NewExiftool i\<close> is the error
  of \<^verbatim>\<open>exiftool.NewExiftool()\<close> in the \<open>i\<close>-th worker; \<open>ExtractMetadata\<close> is what
  exiftool returns for a path (per file an error or the fields, whose values are strings
  or something else); \<open>time_Parse\<close> is \<^verbatim>\<open>time.Parse\<close> of a layout and a value; the
  next five fields are the errors of \<^verbatim>\<open>os.Open\<close>, \<^verbatim>\<open>os.MkdirAll\<close>, \<^verbatim>\<open>os.Create\<close>,
  \<^verbatim>\<open>io.Copy\<close> (with the number of bytes it transfers before it fails) and \<^verbatim>\<open>os.Chtimes\<close>
  on a path. \<open>file_id\<close> is the identity of the file a path names. \<open>copy_sched\<close> is what
  the Go scheduler decides while the copy goroutines run: which goroutine takes the next
  step, and, if that step is a read, a bound on the bytes it returns.
\<close>

datatype oserror = OSError bool string

fun IsNotExist :: "oserror \<Rightarrow> bool" where
  "IsNotExist (OSError ne msg) = ne"

fun Error :: "oserror \<Rightarrow> string" where
  "Error (OSError ne msg) = msg"

datatype field_value = StringValue string | OtherValue

record FileMetadata =
  Err :: "string option"
  Fields :: "string \<rightharpoonup> field_value"

record Env =
  os_Stat :: "string \<Rightarrow> oserror + int64"
  tree :: fsroot
  NewExiftool :: "nat \<Rightarrow> string option"
  ExtractMetadata :: "string \<Rightarrow> FileMetadata list"
  time_Parse :: "string \<Rightarrow> string \<Rightarrow> nat option"
  open_err :: "string \<Rightarrow> string option"
  mkdir_err :: "string \<Rightarrow> string option"
  create_err :: "string \<Rightarrow> string option"
  copy_err :: "string \<Rightarrow> (string \<times> nat) option"
  chtimes_err :: "string \<Rightarrow> string option"
  file_id :: "string \<Rightarrow> string"
  copy_sched :: "(nat \<times> nat) list"

section \<open>The path enumerator: \<^verbatim>\<open>shouldExclude\<close> and \<^verbatim>\<open>walkFiles\<close>\<close>

text \<open>A \<^verbatim>\<open>map[string]bool\<close>; a missing key reads as \<^verbatim>\<open>false\<close>.\<close>

type_synonym extmap = "string \<rightharpoonup> bool"

fun shouldExclude :: "string \<Rightarrow> string list \<Rightarrow> bool" where
  "shouldExclude path [] = False"
| "shouldExclude path (pattern # excludePatterns) =
     (if Match pattern (Base path) then True
      else if Contains path pattern then True
      else shouldExclude path excludePatterns)"

text \<open>The function literal \<^verbatim>\<open>walkFiles\<close> passes to \<^verbatim>\<open>WalkDir\<close>; its state is what it has sent on \<^verbatim>\<open>pathChan\<close>.\<close>

definition walkFiles_func :: "extmap \<Rightarrow> string list \<Rightarrow> string list WalkDirFunc" where
  "walkFiles_func validExts excludePatterns path arg pathChan =
     (case arg of
        Failed err \<Rightarrow> (RetNil, pathChan)
      | Entry isDir \<Rightarrow>
          if isDir then
            (if shouldExclude path excludePatterns then (SkipDir, pathChan) else (RetNil, pathChan))
          else if shouldExclude path excludePatterns then (RetNil, pathChan)
          else let ext = ToLower (Ext path) in
            if validExts ext = Some True then (RetNil, pathChan @ [path]) else (RetNil, pathChan))"

text \<open>The loop over the entries of the root in the non-recursive branch.\<close>

fun walkFiles_entries :: "string \<Rightarrow> extmap \<Rightarrow> string list \<Rightarrow> entry list \<Rightarrow> string list" where
  "walkFiles_entries source validExts excludePatterns [] = []"
| "walkFiles_entries source validExts excludePatterns (entry # entries) =
     (if IsDir entry then walkFiles_entries source validExts excludePatterns entries
      else let path = Join [source, entry_name entry] in
        if shouldExclude path excludePatterns
        then walkFiles_entries source validExts excludePatterns entries
        else let ext = ToLower (Ext path) in
          if validExts ext = Some True
          then path # walkFiles_entries source validExts excludePatterns entries
          else walkFiles_entries source validExts excludePatterns entries)"

text \<open>
  \<^verbatim>\<open>walkFiles\<close> of \<^verbatim>\<open>main.go\<close>: the paths sent on \<^verbatim>\<open>pathChan\<close> before it is closed, and the
  package-level variables, which the function does not touch.
\<close>

definition walkFiles :: "Env \<Rightarrow> string \<Rightarrow> extmap \<Rightarrow> bool \<Rightarrow> string list \<Rightarrow> World \<Rightarrow> string list \<times> World" where
  "walkFiles env source validExts recursive excludePatterns w =
     (if \<not> recursive then
        (case ReadDir (tree env) of
           (entries, Some err) \<Rightarrow> ([], w)
         | (entries, None) \<Rightarrow> (walkFiles_entries source validExts excludePatterns entries, w))
      else (snd (WalkDir (tree env) source (walkFiles_func validExts excludePatterns) []), w))"

text \<open>
  The second copy of the program (the unnamed source file) passes a \<^verbatim>\<open>Config\<close> around and,
  in \<^verbatim>\<open>walkFiles\<close>, sends an error message for the root when \<^verbatim>\<open>WalkDir\<close> returns an error.
\<close>

record Config =
  Source :: string
  Dest :: string
  Workers :: int
  CopyParallel :: int
  ValidExts :: extmap
  ImageExts :: extmap
  Recursive :: bool
  CheckMeta :: bool
  EnableDedup :: bool
  PlanOnly :: bool
  OneDir :: bool
  Verbose :: bool
  ExcludePatterns :: "string list"

definition errorMessage :: "string \<Rightarrow> string \<Rightarrow> progressMsg" where
  "errorMessage file msg =
     \<lparr>stage = [], current = 0, total = 0, is_done = False, summary = NoSummary,
      currentFile = [], errorFile = file, errorMsg = msg\<rparr>"

definition send :: "progressMsg \<Rightarrow> World \<Rightarrow> World" where
  "send msg w = w\<lparr>progChan := progChan w @ [msg]\<rparr>"

definition walkFiles_cfg :: "Env \<Rightarrow> string \<Rightarrow> Config \<Rightarrow> World \<Rightarrow> string list \<times> World" where
  "walkFiles_cfg env source cfg w =
     (if \<not> Recursive cfg then
        (case ReadDir (tree env) of
           (entries, Some err) \<Rightarrow> ([], w)
         | (entries, None) \<Rightarrow>
             (walkFiles_entries source (ValidExts cfg) (ExcludePatterns cfg) entries, w))
      else
        (case WalkDir (tree env) source (walkFiles_func (ValidExts cfg) (ExcludePatterns cfg)) [] of
           (Some err, pathChan) \<Rightarrow> (pathChan, send (errorMessage source (''walk dir: '' @ err)) w)
         | (None, pathChan) \<Rightarrow> (pathChan, w)))"

section \<open>The metadata extractor: \<^verbatim>\<open>getCreationDate\<close> and \<^verbatim>\<open>worker\<close>\<close>

text \<open>
  \<^verbatim>\<open>getCreationDate\<close>: the first field, in the order of \<^verbatim>\<open>fields\<close>, whose value is a string
  that one of the layouts, in the order of \<^verbatim>\<open>formats\<close>, parses.
\<close>

fun parse_formats :: "Env \<Rightarrow> string list \<Rightarrow> string \<Rightarrow> nat option" where
  "parse_formats env [] dateStr = None"
| "parse_formats env (format # layouts) dateStr =
     (case time_Parse env format dateStr of
        Some t \<Rightarrow> Some t
      | None \<Rightarrow> parse_formats env layouts dateStr)"

fun scan_fields :: "Env \<Rightarrow> (string \<rightharpoonup> field_value) \<Rightarrow> string list \<Rightarrow> nat \<times> bool" where
  "scan_fields env flds [] = (0, False)"
| "scan_fields env flds (field # names) =
     (case flds field of
        Some (StringValue dateStr) \<Rightarrow>
          (case parse_formats env
                  [''2006:01:02 15:04:05'', ''2006-01-02T15:04:05'', ''2006-01-02 15:04:05''] dateStr of
             Some t \<Rightarrow> (t, True)
           | None \<Rightarrow> scan_fields env flds names)
      | Some OtherValue \<Rightarrow> scan_fields env flds names
      | None \<Rightarrow> scan_fields env flds names)"

definition getCreationDate :: "Env \<Rightarrow> string \<Rightarrow> nat \<times> bool" where
  "getCreationDate env filePath =
     (case ExtractMetadata env filePath of
        [] \<Rightarrow> (0, False)
      | meta # metas \<Rightarrow>
          if Err meta \<noteq> None then (0, False)
          else scan_fields env (Fields meta)
                 [''DateTimeOriginal'', ''CreateDate'', ''CreationDate'', ''MediaCreateDate''])"

text \<open>
  A progress message with the fields a stage sets; the others keep their zero values. The
  stage names are written without the emoji that precedes each of them in the source.
\<close>

definition progressMessage :: "string \<Rightarrow> int64 \<Rightarrow> int64 \<Rightarrow> string \<Rightarrow> progressMsg" where
  "progressMessage st cur tot file =
     \<lparr>stage = st, current = cur, total = tot, is_done = False, summary = NoSummary,
      currentFile = file, errorFile = [], errorMsg = []\<rparr>"

text \<open>
  One iteration of \<^verbatim>\<open>for path := range pathChan\<close>: the records sent on \<^verbatim>\<open>resultChan\<close> so
  far and the package-level variables, before and after.
\<close>

definition worker_step ::
  "Env \<Rightarrow> string \<Rightarrow> int64 \<Rightarrow> bool \<Rightarrow> string \<Rightarrow> extmap \<Rightarrow> FileInfo list \<times> World \<Rightarrow> string
     \<Rightarrow> FileInfo list \<times> World" where
  "worker_step env source tot checkMeta stg imageExts rw path =
     (case os_Stat env path of
        Inl err \<Rightarrow>
          (fst rw, send (errorMessage path (Error err)) ((snd rw)\<lparr>failedScan := failedScan (snd rw) + 1\<rparr>))
      | Inr sz \<Rightarrow>
          let relPath = (case Rel source path of None \<Rightarrow> Base path | Some r \<Rightarrow> r);
              ext = Ext path;
              baseName = TrimSuffix (Base path) ext;
              meta = (if checkMeta then getCreationDate env path else (0, False));
              info = \<lparr>Path = path, RelPath = relPath, Size = sz, HasMeta = snd meta,
                      BaseName = baseName, CreationDate = fst meta,
                      IsImage = (imageExts (ToLower ext) = Some True)\<rparr>;
              cur = processed (snd rw) + 1
          in (fst rw @ [info], send (progressMessage stg cur tot path) ((snd rw)\<lparr>processed := cur\<rparr>)))"

definition worker ::
  "Env \<Rightarrow> string \<Rightarrow> string list \<Rightarrow> int64 \<Rightarrow> bool \<Rightarrow> string \<Rightarrow> extmap \<Rightarrow> FileInfo list \<times> World
     \<Rightarrow> FileInfo list \<times> World" where
  "worker env source pathChan tot checkMeta stg imageExts rw =
     foldl (worker_step env source tot checkMeta stg imageExts) rw pathChan"

section \<open>The dedup reducer: \<^verbatim>\<open>deduplicate\<close>\<close>

definition stats0 :: Stats where
  "stats0 = \<lparr>TotalSize = 0, UniqueSize = 0, TotalImages = 0, TotalVideos = 0,
              UniqueImages = 0, UniqueVideos = 0, WithMeta = 0, WithoutMeta = 0\<rparr>"

text \<open>The closure \<^verbatim>\<open>updateCounters\<close>, with the statistics it captures as an argument.\<close>

definition updateCounters :: "FileInfo \<Rightarrow> bool \<Rightarrow> Stats \<Rightarrow> Stats" where
  "updateCounters info add stats =
     (let delta = (if \<not> add then - 1 else 1) in
      if IsImage info then stats\<lparr>UniqueImages := UniqueImages stats + delta\<rparr>
      else stats\<lparr>UniqueVideos := UniqueVideos stats + delta\<rparr>)"

text \<open>The expression bound to \<^verbatim>\<open>shouldReplace\<close>.\<close>

definition shouldReplace :: "FileInfo \<Rightarrow> FileInfo \<Rightarrow> bool" where
  "shouldReplace info existing \<longleftrightarrow>
     (HasMeta info \<and> \<not> HasMeta existing) \<or>
     (HasMeta info = HasMeta existing \<and> sint (Size existing) < sint (Size info))"

text \<open>The counters every received record bumps, before the map is looked at.\<close>

definition countTotals :: "FileInfo \<Rightarrow> Stats \<Rightarrow> Stats" where
  "countTotals info stats =
     (let stats = stats\<lparr>TotalSize := TotalSize stats + Size info\<rparr>;
          stats = (if IsImage info then stats\<lparr>TotalImages := TotalImages stats + 1\<rparr>
                   else stats\<lparr>TotalVideos := TotalVideos stats + 1\<rparr>)
      in if HasMeta info then stats\<lparr>WithMeta := WithMeta stats + 1\<rparr>
         else stats\<lparr>WithoutMeta := WithoutMeta stats + 1\<rparr>)"

text \<open>One iteration of the loop over \<^verbatim>\<open>resultChan\<close>, from \<^verbatim>\<open>mu.Lock()\<close> to \<^verbatim>\<open>mu.Unlock()\<close>.\<close>

definition reduce_step :: "bool \<Rightarrow> SurvivorMap \<times> Stats \<Rightarrow> FileInfo \<Rightarrow> SurvivorMap \<times> Stats" where
  "reduce_step enableDedup ds info =
     (let dedup = fst ds; stats = countTotals info (snd ds) in
      if \<not> enableDedup then
        (AList.update (Path info) info dedup,
         updateCounters info True (stats\<lparr>UniqueSize := UniqueSize stats + Size info\<rparr>))
      else
        (case map_of dedup (BaseName info) of
           None \<Rightarrow>
             (AList.update (BaseName info) info dedup,
              updateCounters info True (stats\<lparr>UniqueSize := UniqueSize stats + Size info\<rparr>))
         | Some existing \<Rightarrow>
             if shouldReplace info existing then
               (AList.update (BaseName info) info dedup,
                updateCounters info True (updateCounters existing False
                  (stats\<lparr>UniqueSize := UniqueSize stats - Size existing + Size info\<rparr>)))
             else (dedup, stats)))"

text \<open>
  \<^verbatim>\<open>deduplicate\<close>: the loop runs over the records received until the channel is closed,
  in the order of their arrival.
\<close>

definition deduplicate :: "FileInfo list \<Rightarrow> bool \<Rightarrow> SurvivorMap \<times> Stats" where
  "deduplicate resultChan enableDedup = foldl (reduce_step enableDedup) ([], stats0) resultChan"


section \<open>The copy stage: \<^verbatim>\<open>copyFiles\<close>\<close>

text \<open>
  A call either returns, or panics, or blocks for ever. \<^verbatim>\<open>copyFiles\<close> panics when the
  capacity of its semaphore channel is negative, and, with capacity \<^verbatim>\<open>0\<close>, every copy
  blocks on \<^verbatim>\<open>sem <- struct{}{}\<close> and \<^verbatim>\<open>wg.Wait()\<close> never returns.
\<close>

datatype 'a outcome = Returns 'a | Panics | Blocks

text \<open>
  The bytes of a file, the error of \<^verbatim>\<open>os.Open\<close> (\<open>None\<close> when the file is open), and
  \<^verbatim>\<open>os.MkdirAll\<close>. A write through a file descriptor puts the bytes at the offset of the
  descriptor; when the file has become shorter than the offset in the meantime (another
  \<^verbatim>\<open>os.Create\<close> has truncated it), the gap reads as zero bytes.
\<close>

definition content :: "World \<Rightarrow> string \<Rightarrow> string" where
  "content w f = (case files w f of None \<Rightarrow> [] | Some bytes \<Rightarrow> bytes)"

definition os_Open :: "Env \<Rightarrow> World \<Rightarrow> string \<Rightarrow> string option" where
  "os_Open env w path =
     (case open_err env path of
        Some err \<Rightarrow> Some err
      | None \<Rightarrow>
          (case files w (file_id env path) of
             None \<Rightarrow> Some ''no such file or directory''
           | Some bytes \<Rightarrow> None))"

definition MkdirAll :: "Env \<Rightarrow> string \<Rightarrow> World \<Rightarrow> string option \<times> World" where
  "MkdirAll env path w =
     (case mkdir_err env path of
        Some err \<Rightarrow> (Some err, w)
      | None \<Rightarrow> (None, w\<lparr>made_dirs := made_dirs w @ [path]\<rparr>))"

definition WriteAt :: "string \<Rightarrow> nat \<Rightarrow> string \<Rightarrow> string" where
  "WriteAt old off chunk =
     take off (old @ replicate (off - length old) (CHR 0x00)) @ chunk @ drop (off + length chunk) old"

text \<open>The destination path of one survivor.\<close>

definition destPath :: "bool \<Rightarrow> string \<Rightarrow> FileInfo \<Rightarrow> string" where
  "destPath oneDir dest fi =
     (if oneDir then Join [dest, Base (Path fi)] else Join [dest, RelPath fi])"

text \<open>
  The goroutine started for one survivor, as the sequence of its operations on what it
  shares with the others: the semaphore, the files, the two counters and the channel.
  Where it stands is one of
  \<^item> \<open>AtSem\<close>: before \<^verbatim>\<open>sem <- struct{}{}\<close>;
  \<^item> \<open>AtOpen\<close>, \<open>AtMkdir\<close>, \<open>AtCreate\<close>: before \<^verbatim>\<open>os.Open\<close>, \<^verbatim>\<open>os.MkdirAll\<close>, \<^verbatim>\<open>os.Create\<close>;
  \<^item> \<open>AtRead n\<close>, \<open>AtWrite n chunk\<close>: inside \<^verbatim>\<open>io.Copy\<close> with \<open>n\<close> bytes transferred, before
    the next read of the source, and before the write of the chunk just read;
  \<^item> \<open>AtChtimes\<close>, \<open>AtCount\<close>: after a copy without error, before \<^verbatim>\<open>os.Chtimes\<close> and
    before \<^verbatim>\<open>copied.Add(1)\<close>;
  \<^item> \<open>AtSend msg\<close>: before the send of \<open>msg\<close> on \<^verbatim>\<open>progChan\<close>, after which the deferred
    calls close the files and give the slot of the semaphore back;
  \<^item> \<open>Finished\<close>.
\<close>

datatype copy_pc =
    AtSem
  | AtOpen
  | AtMkdir
  | AtCreate
  | AtRead nat
  | AtWrite nat string
  | AtChtimes
  | AtCount
  | AtSend progressMsg
  | Finished

text \<open>Every error branch: the counter of failures, then the message, then \<^verbatim>\<open>return\<close>.\<close>

definition copy_failed :: "FileInfo \<Rightarrow> string \<Rightarrow> World \<Rightarrow> copy_pc \<times> World" where
  "copy_failed fi msg w =
     (AtSend (errorMessage (Path fi) msg), w\<lparr>failedCopy := failedCopy w + 1\<rparr>)"

text \<open>
  One operation of the goroutine of the survivor \<open>fi\<close>. \<^verbatim>\<open>os.Create\<close> truncates the file
  the destination path names, or creates it empty. A read returns the bytes the source
  holds at that moment from the offset on, at most \<open>Suc k\<close> of them, and none at the end
  of the file, which ends \<^verbatim>\<open>io.Copy\<close> without error; \<open>copy_err\<close> makes \<^verbatim>\<open>io.Copy\<close> fail
  once that many bytes are transferred. The result of \<^verbatim>\<open>os.Chtimes\<close> is ignored.
\<close>

definition copy_step ::
  "Env \<Rightarrow> string \<Rightarrow> bool \<Rightarrow> bool \<Rightarrow> int64 \<Rightarrow> nat \<Rightarrow> FileInfo \<Rightarrow> copy_pc \<times> World \<Rightarrow> copy_pc \<times> World" where
  "copy_step env dest checkMeta oneDir tot k fi st =
     (let w = snd st; dp = destPath oneDir dest fi in
      case fst st of
        AtSem \<Rightarrow> (AtOpen, w)
      | AtOpen \<Rightarrow>
          (case os_Open env w (Path fi) of
             Some err \<Rightarrow> copy_failed fi (''open: '' @ err) w
           | None \<Rightarrow> (AtMkdir, w))
      | AtMkdir \<Rightarrow>
          (case MkdirAll env (Dir dp) w of
             (Some err, w) \<Rightarrow> copy_failed fi (''mkdir: '' @ err) w
           | (None, w) \<Rightarrow> (AtCreate, w))
      | AtCreate \<Rightarrow>
          (case create_err env dp of
             Some err \<Rightarrow> copy_failed fi (''create: '' @ err) w
           | None \<Rightarrow> (AtRead 0, w\<lparr>files := (files w)(file_id env dp \<mapsto> [])\<rparr>))
      | AtRead n \<Rightarrow>
          (case (case copy_err env (Path fi) of
                   Some (err, m) \<Rightarrow> if m \<le> n then Inl err else Inr (min (Suc k) (m - n))
                 | None \<Rightarrow> Inr (Suc k)) of
             Inl err \<Rightarrow> copy_failed fi (''copy: '' @ err) w
           | Inr bound \<Rightarrow>
               let chunk = take bound (drop n (content w (file_id env (Path fi))))
               in if chunk = [] then (AtChtimes, w) else (AtWrite n chunk, w))
      | AtWrite n chunk \<Rightarrow>
          (AtRead (n + length chunk),
           w\<lparr>files := (files w)(file_id env dp \<mapsto> WriteAt (content w (file_id env dp)) n chunk)\<rparr>)
      | AtChtimes \<Rightarrow>
          (AtCount,
           if checkMeta \<and> HasMeta fi \<and> CreationDate fi \<noteq> 0 \<and> chtimes_err env dp = None
           then w\<lparr>mtimes := (mtimes w)(file_id env dp \<mapsto> CreationDate fi)\<rparr> else w)
      | AtCount \<Rightarrow>
          (AtSend (progressMessage ''Copying files...'' (copied w + 1) tot (Path fi)),
           w\<lparr>copied := copied w + 1\<rparr>)
      | AtSend msg \<Rightarrow> (Finished, send msg w)
      | Finished \<Rightarrow> (Finished, w))"

text \<open>
  The goroutines together. The state is where each goroutine stands, in the order of the
  list that stands for the survivor map, and the world. A goroutine holds a slot of the
  semaphore from its \<^verbatim>\<open>sem <- struct{}{}\<close> to its end, and that send goes through only
  while fewer than \<^verbatim>\<open>parallel\<close> slots are held. One entry \<open>(i, k)\<close> of the schedule lets
  goroutine \<open>i\<close> take its next operation, with the bound \<open>k\<close> for a read; it does nothing
  when there is no such goroutine, when the goroutine has finished, and when it waits for
  a slot that is not free. The order in which \<^verbatim>\<open>range files\<close> starts the goroutines needs
  no choice of its own: whatever it is, the schedule decides who moves first.
\<close>

definition holds_slot :: "copy_pc \<Rightarrow> bool" where
  "holds_slot pc = (pc \<noteq> AtSem \<and> pc \<noteq> Finished)"

definition sched_step ::
  "Env \<Rightarrow> string \<Rightarrow> int \<Rightarrow> bool \<Rightarrow> bool \<Rightarrow> FileInfo list \<Rightarrow> copy_pc list \<times> World \<Rightarrow> nat \<times> nat
     \<Rightarrow> copy_pc list \<times> World" where
  "sched_step env dest parallel checkMeta oneDir fis st s =
     (let pcs = fst st; i = fst s in
      if length pcs \<le> i then st
      else if pcs ! i = AtSem \<and> parallel \<le> int (length (filter holds_slot pcs)) then st
      else
        let r = copy_step env dest checkMeta oneDir (of_nat (length fis)) (snd s) (fis ! i)
                  (pcs ! i, snd st)
        in (pcs[i := fst r], snd r))"

text \<open>
  \<^verbatim>\<open>wg.Wait()\<close> returns when every goroutine has finished. The schedule of the
  environment is followed to its end; what is left to do then is done by one goroutine
  after the other, each running to its end with reads that return all there is, and the
  list of goroutines is gone through twice, so that those which waited for a slot in the
  first round get one in the second. Every way the goroutines can run to their ends is
  covered by a schedule that is long enough to leave nothing to the two rounds.
\<close>

definition drain_step ::
  "Env \<Rightarrow> string \<Rightarrow> int \<Rightarrow> bool \<Rightarrow> bool \<Rightarrow> FileInfo list \<Rightarrow> nat \<Rightarrow> copy_pc list \<times> World
     \<Rightarrow> copy_pc list \<times> World" where
  "drain_step env dest parallel checkMeta oneDir fis i st =
     sched_step env dest parallel checkMeta oneDir fis st
       (i, length (content (snd st) (file_id env (Path (fis ! i)))))"

definition drain ::
  "Env \<Rightarrow> string \<Rightarrow> int \<Rightarrow> bool \<Rightarrow> bool \<Rightarrow> FileInfo list \<Rightarrow> copy_pc list \<times> World \<Rightarrow> nat
     \<Rightarrow> copy_pc list \<times> World" where
  "drain env dest parallel checkMeta oneDir fis st i =
     (drain_step env dest parallel checkMeta oneDir fis i ^^ 10) st"

definition finish ::
  "Env \<Rightarrow> string \<Rightarrow> int \<Rightarrow> bool \<Rightarrow> bool \<Rightarrow> FileInfo list \<Rightarrow> copy_pc list \<times> World
     \<Rightarrow> copy_pc list \<times> World" where
  "finish env dest parallel checkMeta oneDir fis st =
     foldl (drain env dest parallel checkMeta oneDir fis) st
       ([0 ..< length fis] @ [0 ..< length fis])"

definition copyFiles :: "Env \<Rightarrow> SurvivorMap \<Rightarrow> string \<Rightarrow> int \<Rightarrow> bool \<Rightarrow> bool \<Rightarrow> World \<Rightarrow> World outcome" where
  "copyFiles env fs dest parallel checkMeta oneDir w =
     (let w = snd (MkdirAll env dest w) in
      if parallel < 0 then Panics
      else
        let fis = map snd fs;
            st = finish env dest parallel checkMeta oneDir fis
                   (foldl (sched_step env dest parallel checkMeta oneDir fis)
                      (map (\<lambda>fi. AtSem) fis, w) (copy_sched env))
        in if list_all (\<lambda>pc. pc = Finished) (fst st) then Returns (snd st) else Blocks)"

section \<open>The run: \<^verbatim>\<open>runDedup\<close> and \<^verbatim>\<open>main\<close>\<close>

text \<open>The function literal of the counting walk; its state is \<^verbatim>\<open>totalFiles\<close>.\<close>

definition count_func :: "extmap \<Rightarrow> int64 WalkDirFunc" where
  "count_func validExts path arg totalFiles =
     (case arg of
        Failed err \<Rightarrow> (RetNil, totalFiles)
      | Entry isDir \<Rightarrow>
          if \<not> isDir \<and> validExts (ToLower (Ext path)) = Some True then (RetNil, totalFiles + 1)
          else (RetNil, totalFiles))"

text \<open>
  The worker goroutines. A worker whose exiftool does not start sends an error message
  and returns; the others drain \<^verbatim>\<open>pathChan\<close> between them. The schedule taken here
  lets the workers start first and then hands the paths over in the order they were
  sent; when no worker has started, no path is ever received. The first component is
  what \<^verbatim>\<open>resultChan\<close> carries before it is closed.
\<close>

definition start_worker :: "Env \<Rightarrow> World \<Rightarrow> nat \<Rightarrow> World" where
  "start_worker env w i =
     (case NewExiftool env i of
        Some err \<Rightarrow> send (errorMessage ''exiftool'' (''worker init failed: '' @ err)) w
      | None \<Rightarrow> w)"

definition run_workers ::
  "Env \<Rightarrow> string \<Rightarrow> int \<Rightarrow> string list \<Rightarrow> int64 \<Rightarrow> bool \<Rightarrow> extmap \<Rightarrow> World \<Rightarrow> FileInfo list \<times> World" where
  "run_workers env source workers pathChan tot checkMeta imageExts w =
     (let w = foldl (start_worker env) w [0 ..< nat workers] in
      if list_ex (\<lambda>i. NewExiftool env i = None) [0 ..< nat workers]
      then worker env source pathChan tot checkMeta ''Scanning files...'' imageExts ([], w)
      else ([], w))"

definition doneMessage :: "summary_text \<Rightarrow> progressMsg" where
  "doneMessage s =
     \<lparr>stage = [], current = 0, total = 0, is_done = True, summary = s,
      currentFile = [], errorFile = [], errorMsg = []\<rparr>"

text \<open>
  \<^verbatim>\<open>runDedup\<close>: the returned error (\<open>None\<close> for \<^verbatim>\<open>nil\<close>) and the package-level variables
  and files after it. The terminal program and the two \<^verbatim>\<open>time.Sleep\<close> calls are left out.
\<close>

definition runDedup ::
  "Env \<Rightarrow> string \<Rightarrow> string \<Rightarrow> int \<Rightarrow> int \<Rightarrow> extmap \<Rightarrow> extmap \<Rightarrow> bool \<Rightarrow> bool \<Rightarrow> bool \<Rightarrow> bool \<Rightarrow> bool
     \<Rightarrow> bool \<Rightarrow> string list \<Rightarrow> World \<Rightarrow> (string option \<times> World) outcome" where
  "runDedup env source dest workers copyParallel validExts imageExts recursive checkMeta
     enableDedup planOnly oneDir verbose excludePatterns w =
     (if (case os_Stat env source of Inl err \<Rightarrow> IsNotExist err | Inr sz \<Rightarrow> False) then
        Returns (Some (''source directory '' @ [CHR 0x27] @ source @ [CHR 0x27] @ '' does not exist''), w)
      else
        let w = w\<lparr>progChan := [progressMessage ''Counting files...'' 0 1 []]\<rparr>;
            totalFiles = snd (WalkDir (tree env) source (count_func validExts) 0);
            pw = walkFiles env source validExts recursive excludePatterns w;
            rw = run_workers env source workers (fst pw) totalFiles checkMeta imageExts (snd pw);
            ds = deduplicate (fst rw) enableDedup;
            w = (snd rw)\<lparr>unique := of_nat (length (fst ds))\<rparr>
        in if planOnly then
             Returns (None, send (doneMessage (PlanSummary (processed w) (unique w) (snd ds))) w)
           else
             (case copyFiles env (fst ds) dest copyParallel checkMeta oneDir w of
                Returns w \<Rightarrow>
                  Returns (None, send (doneMessage (CompleteSummary (processed w) (unique w) (copied w)
                                          (failedScan w) (failedCopy w))) w)
              | Panics \<Rightarrow> Panics
              | Blocks \<Rightarrow> Blocks))"

text \<open>
  The flags of the command line as cobra hands them to \<^verbatim>\<open>RunE\<close>, with, for the three
  flags the program asks about, whether the user set them.
\<close>

record Flags =
  flag_source :: string
  flag_dest :: string
  flag_workers :: int
  flag_copyParallel :: int
  flag_imageExts :: string
  flag_videoExts :: string
  flag_excludeStr :: string
  flag_noRecursive :: bool
  flag_noMeta :: bool
  flag_noDedup :: bool
  flag_planOnly :: bool
  flag_showVersion :: bool
  flag_oneDir :: bool
  flag_verbose :: bool
  flag_source_Changed :: bool
  flag_dest_Changed :: bool
  flag_exclude_Changed :: bool

text \<open>The defaults of the flags; that of \<^verbatim>\<open>--workers\<close> is \<^verbatim>\<open>runtime.NumCPU()\<close>.\<close>

definition default_Flags :: "int \<Rightarrow> Flags" where
  "default_Flags numCPU =
     \<lparr>flag_source = ''.'', flag_dest = ''MEDIADUPES'', flag_workers = numCPU, flag_copyParallel = 4,
      flag_imageExts = ''.jpg,.jpeg,.png,.heic,.heif'', flag_videoExts = ''.mp4,.mov,.avi,.mkv,.m4v'',
      flag_excludeStr = [], flag_noRecursive = False, flag_noMeta = False, flag_noDedup = False, flag_planOnly = False,
      flag_showVersion = False, flag_oneDir = False, flag_verbose = False,
      flag_source_Changed = False, flag_dest_Changed = False, flag_exclude_Changed = False\<rparr>"

text \<open>The loops of \<^verbatim>\<open>RunE\<close> that fill \<^verbatim>\<open>validExts\<close>, \<^verbatim>\<open>imageExtsMap\<close> and \<^verbatim>\<open>excludePatterns\<close>.\<close>

definition flag_items :: "string \<Rightarrow> string list" where
  "flag_items s = filter (\<lambda>e. e \<noteq> []) (map TrimSpace (Split s (CHR '','')))"

definition add_exts :: "string \<Rightarrow> extmap \<Rightarrow> extmap" where
  "add_exts s m = foldl (\<lambda>m ext. m(ToLower ext \<mapsto> True)) m (flag_items s)"

definition main_imageExtsMap :: "Flags \<Rightarrow> extmap" where
  "main_imageExtsMap fl = add_exts (flag_imageExts fl) Map.empty"

definition main_validExts :: "Flags \<Rightarrow> extmap" where
  "main_validExts fl = add_exts (flag_videoExts fl) (add_exts (flag_imageExts fl) Map.empty)"

definition main_excludePatterns :: "Flags \<Rightarrow> string list" where
  "main_excludePatterns fl = (if flag_exclude_Changed fl then flag_items (flag_excludeStr fl) else [''.*''])"

text \<open>
  \<^verbatim>\<open>main\<close>: the exit status of the process. \<^verbatim>\<open>RunE\<close> returns \<^verbatim>\<open>nil\<close> after printing the
  version or the help; otherwise it returns what \<^verbatim>\<open>runDedup\<close> returns, and \<^verbatim>\<open>main\<close> calls
  \<^verbatim>\<open>os.Exit(1)\<close> exactly when that is an error.
\<close>

definition main :: "Env \<Rightarrow> Flags \<Rightarrow> World \<Rightarrow> (nat \<times> World) outcome" where
  "main env fl w =
     (if flag_showVersion fl then Returns (0, w)
      else if \<not> flag_source_Changed fl \<and> \<not> flag_dest_Changed fl \<and> \<not> flag_planOnly fl then Returns (0, w)
      else
        (case runDedup env (flag_source fl) (flag_dest fl) (flag_workers fl) (flag_copyParallel fl)
                (main_validExts fl) (main_imageExtsMap fl) (\<not> flag_noRecursive fl) (\<not> flag_noMeta fl)
                (\<not> flag_noDedup fl) (flag_planOnly fl) (flag_oneDir fl) (flag_verbose fl) (main_excludePatterns fl) w of
           Returns (Some err, w) \<Rightarrow> Returns (1, w)
         | Returns (None, w) \<Rightarrow> Returns (0, w)
         | Panics \<Rightarrow> Panics
         | Blocks \<Rightarrow> Blocks))"

text \<open>
  A bound on the operations a goroutine has left when it runs alone with reads that
  return all there is: the measure by which \<open>drain\<close> is shown to bring it to its end.
\<close>

definition read_togo :: "Env \<Rightarrow> FileInfo \<Rightarrow> World \<Rightarrow> nat \<Rightarrow> nat" where
  "read_togo env fi w n =
     (if (case copy_err env (Path fi) of Some (err, m) \<Rightarrow> m \<le> n | None \<Rightarrow> False) then 2
      else if drop n (content w (file_id env (Path fi))) = [] then 4 else 6)"

definition togo :: "Env \<Rightarrow> string \<Rightarrow> bool \<Rightarrow> FileInfo \<Rightarrow> copy_pc \<times> World \<Rightarrow> nat" where
  "togo env dest oneDir fi st =
     (let w = snd st; d = file_id env (destPath oneDir dest fi) in
      case fst st of
        AtSem \<Rightarrow> 10
      | AtOpen \<Rightarrow> 9
      | AtMkdir \<Rightarrow> 8
      | AtCreate \<Rightarrow> 7
      | AtRead n \<Rightarrow> read_togo env fi w n
      | AtWrite n chunk \<Rightarrow>
          Suc (read_togo env fi (w\<lparr>files := (files w)(d \<mapsto> WriteAt (content w d) n chunk)\<rparr>)
                 (n + length chunk))
      | AtChtimes \<Rightarrow> 3
      | AtCount \<Rightarrow> 2
      | AtSend msg \<Rightarrow> 1
      | Finished \<Rightarrow> 0)"

text \<open>
  Two more notions for the proofs: a goroutine is counted once it has added one to
  \<^verbatim>\<open>copied\<close> or to \<^verbatim>\<open>failedCopy\<close>; and what the destination holds, in terms of the bytes
  \<open>b\<close> of the source, while a goroutine that meets no error and no other writer copies.
\<close>

definition counted :: "copy_pc \<Rightarrow> bool" where
  "counted pc = (case pc of AtSend msg \<Rightarrow> True | Finished \<Rightarrow> True | _ \<Rightarrow> False)"

definition copied_so_far :: "string \<Rightarrow> copy_pc \<Rightarrow> string option \<Rightarrow> bool" where
  "copied_so_far b pc f =
     (case pc of
        AtSem \<Rightarrow> True
      | AtOpen \<Rightarrow> True
      | AtMkdir \<Rightarrow> True
      | AtCreate \<Rightarrow> True
      | AtRead n \<Rightarrow> f = Some (take n b) \<and> n \<le> length b
      | AtWrite n chunk \<Rightarrow> f = Some (take n b) \<and> n \<le> length b \<and> take (length chunk) (drop n b) = chunk
      | AtChtimes \<Rightarrow> f = Some b
      | AtCount \<Rightarrow> f = Some b
      | AtSend msg \<Rightarrow> f = Some b
      | Finished \<Rightarrow> f = Some b)"

section \<open>What the enumerator is compared with\<close>

text \<open>
  The words of the specification about the enumerator, as definitions of their own. A path
  is \<open>accepted\<close> when its lower-cased extension is in the accepted set and no exclusion
  pattern matches it. The \<open>unpruned\<close> files of a tree are those that do not lie below a
  directory that an exclusion pattern matches, the root included; whether a directory
  could be read in full plays no part. The \<open>candidates\<close> of a run are the unpruned files
  of the tree in recursive mode, and the entries of a readable root that are not
  directories otherwise.
\<close>

definition accepted :: "extmap \<Rightarrow> string list \<Rightarrow> string \<Rightarrow> bool" where
  "accepted validExts excludePatterns p \<longleftrightarrow>
     \<not> shouldExclude p excludePatterns \<and> validExts (ToLower (Ext p)) = Some True"

fun unpruned :: "string list \<Rightarrow> string \<Rightarrow> entry \<Rightarrow> string list"
  and unpruned_entries :: "string list \<Rightarrow> string \<Rightarrow> entry list \<Rightarrow> string list" where
  "unpruned excludePatterns path (File n) = [path]"
| "unpruned excludePatterns path (Directory n dirs rerr) =
     (if shouldExclude path excludePatterns then []
      else unpruned_entries excludePatterns path dirs)"
| "unpruned_entries excludePatterns path [] = []"
| "unpruned_entries excludePatterns path (d # ds) =
     unpruned excludePatterns (Join [path, entry_name d]) d @
     unpruned_entries excludePatterns path ds"

definition direct_files :: "string \<Rightarrow> entry list \<Rightarrow> string list" where
  "direct_files source entries =
     map (\<lambda>d. Join [source, entry_name d]) (filter (\<lambda>d. \<not> IsDir d) entries)"

definition candidates :: "fsroot \<Rightarrow> string \<Rightarrow> bool \<Rightarrow> string list \<Rightarrow> string list" where
  "candidates fs source recursive excludePatterns =
     (if recursive then
        (case fs of LstatErr e \<Rightarrow> [] | Present d \<Rightarrow> unpruned excludePatterns source d)
      else
        (case ReadDir fs of
           (entries, Some err) \<Rightarrow> []
         | (entries, None) \<Rightarrow> direct_files source entries))"

text \<open>All the files of a tree: no pattern, nothing pruned.\<close>

definition tree_files :: "fsroot \<Rightarrow> string \<Rightarrow> string list" where
  "tree_files fs source = (case fs of LstatErr e \<Rightarrow> [] | Present d \<Rightarrow> unpruned [] source d)"

text \<open>
  A root that cannot be read: \<^verbatim>\<open>Lstat\<close> fails on it, or it is a directory whose
  \<^verbatim>\<open>ReadDir\<close> fails and delivers nothing.
\<close>

fun unreadable :: "fsroot \<Rightarrow> bool" where
  "unreadable (LstatErr e) = True"
| "unreadable (Present (File n)) = False"
| "unreadable (Present (Directory n dirs rerr)) = (dirs = [] \<and> rerr \<noteq> None)"

text \<open>The same tree with every \<^verbatim>\<open>ReadDir\<close> error taken away and the delivered entries kept.\<close>

fun forget_errors :: "entry \<Rightarrow> entry" where
  "forget_errors (File n) = File n"
| "forget_errors (Directory n dirs rerr) = Directory n (map forget_errors dirs) None"

section \<open>Concrete inputs\<close>

text \<open>
  The three records of one group that the specification uses as its example, and a
  fourth that ties with the first: same group, same metadata status, same size, another
  directory.
\<close>

definition rec_a10 :: FileInfo where
  "rec_a10 = \<lparr>Path = ''/src/x/a.jpg'', RelPath = ''x/a.jpg'', Size = 10, HasMeta = False,
              BaseName = ''a'', CreationDate = 0, IsImage = True\<rparr>"

definition rec_a5m :: FileInfo where
  "rec_a5m = \<lparr>Path = ''/src/y/a.jpg'', RelPath = ''y/a.jpg'', Size = 5, HasMeta = True,
              BaseName = ''a'', CreationDate = 1700000000, IsImage = True\<rparr>"

definition rec_a20 :: FileInfo where
  "rec_a20 = \<lparr>Path = ''/src/z/a.jpg'', RelPath = ''z/a.jpg'', Size = 20, HasMeta = False,
              BaseName = ''a'', CreationDate = 0, IsImage = True\<rparr>"

definition rec_a10' :: FileInfo where
  "rec_a10' = \<lparr>Path = ''/src/w/a.jpg'', RelPath = ''w/a.jpg'', Size = 10, HasMeta = False,
               BaseName = ''a'', CreationDate = 0, IsImage = True\<rparr>"

text \<open>
  A world in which nothing has happened yet, and an environment around a given tree in
  which every file has 100 bytes, no file has metadata, no operation fails, different
  paths name different files, and the copy goroutines run one after the other, in the
  order of the list that stands for the survivor map.
\<close>

definition world0 :: World where
  "world0 = \<lparr>processed = 0, unique = 0, copied = 0, failedScan = 0, failedCopy = 0,
             progChan = [], files = Map.empty, mtimes = Map.empty, made_dirs = []\<rparr>"

definition quiet_env :: "fsroot \<Rightarrow> Env" where
  "quiet_env fs =
     \<lparr>os_Stat = (\<lambda>p. Inr 100), tree = fs, NewExiftool = (\<lambda>i. None),
      ExtractMetadata = (\<lambda>p. []), time_Parse = (\<lambda>layout v. None),
      open_err = (\<lambda>p. None), mkdir_err = (\<lambda>p. None),
      create_err = (\<lambda>p. None), copy_err = (\<lambda>p. None), chtimes_err = (\<lambda>p. None),
      file_id = (\<lambda>p. p), copy_sched = []\<rparr>"

text \<open>The tree of the specification's exclusion example, at the root \<^verbatim>\<open>/\<close>.\<close>

definition git_tree :: fsroot where
  "git_tree = Present (Directory ''/''
     [Directory ''.git'' [File ''x.jpg''] None, Directory ''photos'' [File ''y.jpg''] None] None)"

text \<open>A root directory that exists and cannot be read.\<close>

definition locked_tree :: fsroot where
  "locked_tree = Present (Directory ''src'' [] (Some ''permission denied''))"

text \<open>Two files whose names differ in letter case only.\<close>

definition case_tree :: fsroot where
  "case_tree = Present (Directory ''src'' [File ''IMG_001.JPG'', File ''img_001.jpg''] None)"



text \<open>
  Two survivors with the same base name in different directories, and a world that holds
  their files.
\<close>

definition rec_img_a :: FileInfo where
  "rec_img_a = \<lparr>Path = ''/src/a/img.jpg'', RelPath = ''a/img.jpg'', Size = 5, HasMeta = False,
                BaseName = ''img'', CreationDate = 0, IsImage = True\<rparr>"

definition rec_img_b :: FileInfo where
  "rec_img_b = \<lparr>Path = ''/src/b/img.jpg'', RelPath = ''b/img.jpg'', Size = 6, HasMeta = False,
                BaseName = ''img'', CreationDate = 0, IsImage = True\<rparr>"

definition world_img :: World where
  "world_img = world0\<lparr>files := [''/src/a/img.jpg'' \<mapsto> ''first'', ''/src/b/img.jpg'' \<mapsto> ''second'']\<rparr>"

text \<open>A configuration of the second copy of the program, in non-recursive mode.\<close>

definition flat_cfg :: Config where
  "flat_cfg = \<lparr>Source = ''/src'', Dest = ''out'', Workers = 1, CopyParallel = 4,
               ValidExts = [''.jpg'' \<mapsto> True], ImageExts = [''.jpg'' \<mapsto> True],
               Recursive = False, CheckMeta = True, EnableDedup = True, PlanOnly = False,
               OneDir = False, Verbose = False, ExcludePatterns = [''.*'']\<rparr>"

chapter \<open>Properties\<close>

section \<open>The reducer\<close>

lemma deduplicate_Nil: "deduplicate [] e = ([], stats0)"
  by (simp add: deduplicate_def)

lemma deduplicate_snoc:
  "deduplicate (xs @ [x]) e = reduce_step e (deduplicate xs e) x"
  by (simp add: deduplicate_def)

subsection \<open>The survivor map and the size counters, step by step\<close>

lemma update_fresh: "k \<notin> fst ` set al \<Longrightarrow> AList.update k v al = al @ [(k, v)]"
  by (induction al) auto






lemma TotalSize_updateCounters [simp]: "TotalSize (updateCounters i a s) = TotalSize s"
  and UniqueSize_updateCounters [simp]: "UniqueSize (updateCounters i a s) = UniqueSize s"
  by (simp_all add: updateCounters_def Let_def)

lemma TotalSize_countTotals [simp]: "TotalSize (countTotals i s) = TotalSize s + Size i"
  and UniqueSize_countTotals [simp]: "UniqueSize (countTotals i s) = UniqueSize s"
  by (simp_all add: countTotals_def Let_def)





lemma nodedup_map: 
  "distinct (map Path xs) \<Longrightarrow> fst (deduplicate xs False) = map (\<lambda>x. (Path x, x)) xs"
proof (induction xs rule: rev_induct)
  case Nil
  then show ?case by (simp add: deduplicate_Nil)
next
  case (snoc x xs)
  then have "Path x \<notin> fst ` set (map (\<lambda>x. (Path x, x)) xs)"
    by (auto simp: image_iff)
  with snoc show ?case
    by (simp add: deduplicate_snoc reduce_step_def Let_def update_fresh)
qed


subsection \<open>The survivor of a group is one that no record of the group beats\<close>

lemma shouldReplace_irrefl: "\<not> shouldReplace x x"
  by (simp add: shouldReplace_def)

lemma shouldReplace_keeps_best:
  "shouldReplace i e \<Longrightarrow> \<not> shouldReplace y e \<Longrightarrow> \<not> shouldReplace y i"
  by (auto simp: shouldReplace_def)

lemma no_better_tie:
  "\<not> shouldReplace a b \<Longrightarrow> \<not> shouldReplace b a \<Longrightarrow> HasMeta a = HasMeta b \<and> Size a = Size b"
proof -
  assume ab: "\<not> shouldReplace a b" and ba: "\<not> shouldReplace b a"
  then have m: "HasMeta a = HasMeta b"
    by (auto simp: shouldReplace_def)
  with ab ba have "sint (Size a) = sint (Size b)"
    by (auto simp: shouldReplace_def)
  then have "Size a = Size b"
    by (simp add: signed_word_eqI)
  with m show ?thesis by simp
qed

lemma dom_reduce_step:
  "dom (map_of (fst (reduce_step True ds x))) = insert (BaseName x) (dom (map_of (fst ds)))"
  by (auto simp: reduce_step_def Let_def update_conv' split: option.splits)

lemma keys_deduplicate: "dom (map_of (fst (deduplicate xs True))) = BaseName ` set xs"
  by (induction xs rule: rev_induct)
     (simp_all add: deduplicate_Nil deduplicate_snoc dom_reduce_step)

lemma survivor_None_iff:
  "map_of (fst (deduplicate xs True)) k = None \<longleftrightarrow> k \<notin> BaseName ` set xs"
proof -
  have "k \<in> dom (map_of (fst (deduplicate xs True))) \<longleftrightarrow> k \<in> BaseName ` set xs"
    by (simp only: keys_deduplicate)
  then show ?thesis
    by (simp only: domIff) blast
qed

lemma survivor_best:
  "map_of (fst (deduplicate xs True)) k = Some r \<Longrightarrow>
     r \<in> set xs \<and> BaseName r = k \<and> (\<forall>y\<in>set xs. BaseName y = k \<longrightarrow> \<not> shouldReplace y r)"
proof (induction xs arbitrary: k r rule: rev_induct)
  case Nil
  then show ?case by (simp add: deduplicate_Nil)
next
  case (snoc x xs)
  let ?al = "fst (deduplicate xs True)"
  show ?case
  proof (cases "map_of ?al (BaseName x)")
    case None
    then have new: "fst (deduplicate (xs @ [x]) True) = AList.update (BaseName x) x ?al"
      by (simp add: deduplicate_snoc reduce_step_def Let_def)
    have fresh: "\<forall>y\<in>set xs. BaseName y \<noteq> BaseName x"
      using None unfolding survivor_None_iff by (metis imageI)
    show ?thesis
    proof (cases "k = BaseName x")
      case True
      with snoc.prems new have "r = x" by (simp add: update_conv')
      with True fresh show ?thesis by (auto simp: shouldReplace_irrefl)
    next
      case False
      with snoc.prems new have "map_of ?al k = Some r" by (simp add: update_conv')
      from snoc.IH [OF this] False show ?thesis by auto
    qed
  next
    case (Some existing)
    note ex = snoc.IH [OF Some]
    show ?thesis
    proof (cases "shouldReplace x existing")
      case True
      with Some have new: "fst (deduplicate (xs @ [x]) True) = AList.update (BaseName x) x ?al"
        by (simp add: deduplicate_snoc reduce_step_def Let_def)
      show ?thesis
      proof (cases "k = BaseName x")
        case k: True
        with snoc.prems new have "r = x" by (simp add: update_conv')
        with k ex True show ?thesis
          by (auto simp: shouldReplace_irrefl dest: shouldReplace_keeps_best)
      next
        case False
        with snoc.prems new have "map_of ?al k = Some r" by (simp add: update_conv')
        from snoc.IH [OF this] False show ?thesis by auto
      qed
    next
      case False
      with Some have same: "fst (deduplicate (xs @ [x]) True) = ?al"
        by (simp add: deduplicate_snoc reduce_step_def Let_def)
      with snoc.prems have r: "map_of ?al k = Some r" by simp
      note kr = snoc.IH [OF r]
      show ?thesis
      proof (cases "k = BaseName x")
        case True
        with r Some have "r = existing" by simp
        with kr False True show ?thesis by auto
      next
        case False
        with kr show ?thesis by auto
      qed
    qed
  qed
qed

lemma order_independent:
  assumes perm: "mset xs = mset ys"
    and noties: "\<forall>a\<in>set xs. \<forall>b\<in>set xs.
        BaseName a = BaseName b \<and> HasMeta a = HasMeta b \<and> Size a = Size b \<longrightarrow> a = b"
  shows "map_of (fst (deduplicate xs True)) = map_of (fst (deduplicate ys True))"
proof
  fix k
  have sets: "set xs = set ys"
    using perm by (rule mset_eq_setD)
  show "map_of (fst (deduplicate xs True)) k = map_of (fst (deduplicate ys True)) k"
  proof (cases "map_of (fst (deduplicate xs True)) k")
    case None
    then have "k \<notin> BaseName ` set xs"
      by (simp add: survivor_None_iff)
    then have "map_of (fst (deduplicate ys True)) k = None"
      using sets by (simp add: survivor_None_iff)
    with None show ?thesis by simp
  next
    case (Some r)
    note sb = survivor_best [OF Some]
    have rx: "r \<in> set xs"
      by (rule conjunct1 [OF sb])
    have rk: "BaseName r = k"
      by (rule conjunct1 [OF conjunct2 [OF sb]])
    have rbest: "\<forall>y\<in>set xs. BaseName y = k \<longrightarrow> \<not> shouldReplace y r"
      by (rule conjunct2 [OF conjunct2 [OF sb]])
    have "k \<in> BaseName ` set ys"
      using rx rk sets by (metis imageI)
    then have "map_of (fst (deduplicate ys True)) k \<noteq> None"
      by (simp only: survivor_None_iff not_not)
    then obtain r' where r': "map_of (fst (deduplicate ys True)) k = Some r'"
      by (cases "map_of (fst (deduplicate ys True)) k") simp_all
    note sb' = survivor_best [OF r']
    have ry: "r' \<in> set xs"
      using conjunct1 [OF sb'] sets by simp
    have rk': "BaseName r' = k"
      by (rule conjunct1 [OF conjunct2 [OF sb']])
    have rbest': "\<forall>y\<in>set ys. BaseName y = k \<longrightarrow> \<not> shouldReplace y r'"
      by (rule conjunct2 [OF conjunct2 [OF sb']])
    have rys: "r \<in> set ys"
      using rx sets by simp
    have n1: "\<not> shouldReplace r r'"
      by (rule mp [OF bspec [OF rbest' rys] rk])
    have n2: "\<not> shouldReplace r' r"
      by (rule mp [OF bspec [OF rbest ry] rk'])
    have tie: "HasMeta r = HasMeta r' \<and> Size r = Size r'"
      by (rule no_better_tie [OF n1 n2])
    have "BaseName r = BaseName r' \<and> HasMeta r = HasMeta r' \<and> Size r = Size r'"
      using tie rk rk' by simp
    then have "r = r'"
      by (rule mp [OF bspec [OF bspec [OF noties rx] ry]])
    with Some r' show ?thesis by simp
  qed
qed

subsection \<open>Survivors are input records; sums of sizes as integers\<close>










lemma UniqueSize_eq_TotalSize_nodedup:
  "UniqueSize (snd (deduplicate xs False)) = TotalSize (snd (deduplicate xs False))"
  by (induction xs rule: rev_induct)
     (simp_all add: deduplicate_Nil deduplicate_snoc stats0_def reduce_step_def Let_def)


lemma nth_not_in_take:
  "distinct ys \<Longrightarrow> n < length ys \<Longrightarrow> ys ! n \<notin> set (take n ys)"
  by (auto simp: in_set_conv_nth distinct_conv_nth)


subsection \<open>The example records\<close>

lemma rec_fields:
  "Path rec_a10 = ''/src/x/a.jpg''" "Path rec_a5m = ''/src/y/a.jpg''"
  "Path rec_a20 = ''/src/z/a.jpg''" "Path rec_a10' = ''/src/w/a.jpg''"
  "BaseName rec_a10 = ''a''" "BaseName rec_a5m = ''a''" "BaseName rec_a20 = ''a''"
  "BaseName rec_a10' = ''a''"
  "HasMeta rec_a10 = False" "HasMeta rec_a5m = True" "HasMeta rec_a20 = False"
  "HasMeta rec_a10' = False"
  "Size rec_a10 = 10" "Size rec_a5m = 5" "Size rec_a20 = 20" "Size rec_a10' = 10"
  "IsImage rec_a10 = True" "IsImage rec_a5m = True" "IsImage rec_a20 = True"
  "IsImage rec_a10' = True"
  by (simp_all add: rec_a10_def rec_a5m_def rec_a20_def rec_a10'_def)

lemma rec_distinct:
  "rec_a10 \<noteq> rec_a5m" "rec_a10 \<noteq> rec_a20" "rec_a10 \<noteq> rec_a10'" "rec_a5m \<noteq> rec_a20"
  "rec_a5m \<noteq> rec_a10" "rec_a20 \<noteq> rec_a10" "rec_a10' \<noteq> rec_a10" "rec_a20 \<noteq> rec_a5m"
  by (simp_all add: rec_a10_def rec_a5m_def rec_a20_def rec_a10'_def)

lemma deduplicate_Cons_eval:
  "deduplicate (x # xs) e = foldl (reduce_step e) (reduce_step e ([], stats0) x) xs"
  by (simp add: deduplicate_def)

lemma fst_reduce_step_True:
  "fst (reduce_step True ds x) =
     (case map_of (fst ds) (BaseName x) of
        None \<Rightarrow> AList.update (BaseName x) x (fst ds)
      | Some existing \<Rightarrow>
          if shouldReplace x existing then AList.update (BaseName x) x (fst ds) else fst ds)"
  by (simp add: reduce_step_def Let_def split: option.splits)

lemma fst_foldl_reduce_Nil: "fst (foldl (reduce_step e) ds []) = fst ds"
  by simp

lemma fst_foldl_reduce_Cons:
  "fst (foldl (reduce_step True) ds (x # xs)) =
     fst (foldl (reduce_step True) (fst (reduce_step True ds x), snd (reduce_step True ds x)) xs)"
  by simp


lemma spec_example_survivor:
  "fst (deduplicate [rec_a10, rec_a5m, rec_a20] True) = [(''a'', rec_a5m)]"
  by (simp add: deduplicate_def reduce_step_def Let_def shouldReplace_def rec_fields)


subsection \<open>The claims about the reducer\<close>

text \<open>
  C1. With deduplication enabled, a record arriving for a group that already has a survivor
  replaces that survivor exactly when it has metadata and the survivor has none, or both
  have the same metadata status and the incoming size is strictly greater. In every other
  case the map is left as it was; on an exact tie in particular, where only the total
  counters move.
\<close>

theorem replace_iff_better:
  "map_of (fst (deduplicate xs True)) (BaseName info) = Some existing \<Longrightarrow>
     fst (deduplicate (xs @ [info]) True) =
       (if (HasMeta info \<and> \<not> HasMeta existing) \<or>
           (HasMeta info = HasMeta existing \<and> sint (Size existing) < sint (Size info))
        then AList.update (BaseName info) info (fst (deduplicate xs True))
        else fst (deduplicate xs True)) \<and>
     (HasMeta info = HasMeta existing \<and> Size info = Size existing \<longrightarrow>
        deduplicate (xs @ [info]) True =
          (fst (deduplicate xs True), countTotals info (snd (deduplicate xs True))))"
  by (simp add: deduplicate_snoc reduce_step_def shouldReplace_def Let_def)

theorem replace_iff_better_witness:
  "map_of (fst (deduplicate [rec_a10] True)) (BaseName rec_a10') = Some rec_a10 \<and>
   fst (deduplicate ([rec_a10] @ [rec_a10']) True) = [(''a'', rec_a10)] \<and>
   fst (deduplicate ([rec_a10] @ [rec_a5m]) True) = [(''a'', rec_a5m)] \<and>
   fst (deduplicate ([rec_a10] @ [rec_a20]) True) = [(''a'', rec_a20)] \<and>
   fst (deduplicate ([rec_a20] @ [rec_a10]) True) = [(''a'', rec_a20)] \<and>
   fst (deduplicate ([rec_a5m] @ [rec_a20]) True) = [(''a'', rec_a5m)]"
proof -
  have one: "fst (deduplicate [r] True) = [(BaseName r, r)]" for r
    by (simp add: deduplicate_def reduce_step_def Let_def)
  have names: "BaseName rec_a10 = ''a''" "BaseName rec_a10' = ''a''" "BaseName rec_a5m = ''a''"
    "BaseName rec_a20 = ''a''"
    by (simp_all add: rec_a10_def rec_a10'_def rec_a5m_def rec_a20_def)
  have vals: "HasMeta rec_a10 = False" "HasMeta rec_a10' = False" "HasMeta rec_a5m = True"
    "HasMeta rec_a20 = False" "Size rec_a10 = 10" "Size rec_a10' = 10" "Size rec_a5m = 5"
    "Size rec_a20 = 20"
    by (simp_all add: rec_a10_def rec_a10'_def rec_a5m_def rec_a20_def)
  show ?thesis
    using replace_iff_better [of "[rec_a10]" rec_a10' rec_a10]
      replace_iff_better [of "[rec_a10]" rec_a5m rec_a10]
      replace_iff_better [of "[rec_a10]" rec_a20 rec_a10]
      replace_iff_better [of "[rec_a20]" rec_a10 rec_a20]
      replace_iff_better [of "[rec_a5m]" rec_a20 rec_a5m]
    by (simp add: one names vals)
qed


text \<open>
  C2, as it stands, fails: two different records of one group that tie (same metadata
  status, same size) are each the survivor when they arrive first, so the final map
  depends on the order of arrival.
\<close>

theorem survivor_depends_on_order_of_a_tie:
  "rec_a10 \<noteq> rec_a10' \<and>
   mset [rec_a10, rec_a10'] = mset [rec_a10', rec_a10] \<and>
   map_of (fst (deduplicate [rec_a10, rec_a10'] True)) ''a'' = Some rec_a10 \<and>
   map_of (fst (deduplicate [rec_a10', rec_a10] True)) ''a'' = Some rec_a10' \<and>
   map_of (fst (deduplicate [rec_a10, rec_a10'] True)) \<noteq>
     map_of (fst (deduplicate [rec_a10', rec_a10] True))"
proof -
  have a: "fst (deduplicate [rec_a10, rec_a10'] True) = [(''a'', rec_a10)]"
    by (simp add: deduplicate_def reduce_step_def Let_def shouldReplace_def rec_fields)
  have b: "fst (deduplicate [rec_a10', rec_a10] True) = [(''a'', rec_a10')]"
    by (simp add: deduplicate_def reduce_step_def Let_def shouldReplace_def rec_fields)
  have ne: "rec_a10 \<noteq> rec_a10'"
    by (rule rec_distinct)
  have "map_of [(''a'', rec_a10)] ''a'' \<noteq> map_of [(''a'', rec_a10')] ''a''"
    using ne by simp
  then have "map_of [(''a'', rec_a10)] \<noteq> map_of [(''a'', rec_a10')]"
    by metis
  with ne show ?thesis
    by (simp add: a b)
qed

text \<open>
  C2, amended. When no two different records of the input tie within a group, any two
  orders of arrival of the same records give the same survivor map: the same survivor
  for every group key.
\<close>

theorem survivors_order_independent:
  assumes "mset xs = mset ys"
    and "\<forall>a\<in>set xs. \<forall>b\<in>set xs.
        BaseName a = BaseName b \<and> HasMeta a = HasMeta b \<and> Size a = Size b \<longrightarrow> a = b"
  shows "map_of (fst (deduplicate xs True)) = map_of (fst (deduplicate ys True))"
  using assms by (rule order_independent)


theorem survivors_order_independent_witness:
  "mset [rec_a10, rec_a5m, rec_a20] = mset [rec_a20, rec_a10, rec_a5m] \<and>
   Size rec_a10 \<noteq> Size rec_a5m \<and> Size rec_a10 \<noteq> Size rec_a20 \<and> Size rec_a5m \<noteq> Size rec_a20 \<and>
   map_of (fst (deduplicate [rec_a10, rec_a5m, rec_a20] True)) =
     map_of (fst (deduplicate [rec_a20, rec_a10, rec_a5m] True)) \<and>
   map_of (fst (deduplicate [rec_a20, rec_a10, rec_a5m] True)) = map_of [(''a'', rec_a5m)]"
proof -
  have p: "mset [rec_a10, rec_a5m, rec_a20] = mset [rec_a20, rec_a10, rec_a5m]"
    by simp
  have n: "\<forall>a\<in>set [rec_a10, rec_a5m, rec_a20]. \<forall>b\<in>set [rec_a10, rec_a5m, rec_a20].
      BaseName a = BaseName b \<and> HasMeta a = HasMeta b \<and> Size a = Size b \<longrightarrow> a = b"
    by (simp add: rec_fields)
  have e: "map_of (fst (deduplicate [rec_a10, rec_a5m, rec_a20] True)) =
      map_of (fst (deduplicate [rec_a20, rec_a10, rec_a5m] True))"
    by (rule survivors_order_independent [OF p n])
  have s: "Size rec_a10 \<noteq> Size rec_a5m \<and> Size rec_a10 \<noteq> Size rec_a20 \<and> Size rec_a5m \<noteq> Size rec_a20"
    by (simp add: rec_fields)
  from e [symmetric] have "map_of (fst (deduplicate [rec_a20, rec_a10, rec_a5m] True)) =
      map_of [(''a'', rec_a5m)]"
    by (simp only: spec_example_survivor)
  with p s e show ?thesis
    by (simp only: simp_thms)
qed





text \<open>
  C6. With deduplication disabled and pairwise distinct paths, the survivor map has one
  entry per input record, under the record's path; the key of each arriving record is
  absent from the map when it arrives, so no record replaces another; and
  \<^verbatim>\<open>UniqueSize\<close> equals \<^verbatim>\<open>TotalSize\<close>.
\<close>

theorem no_dedup_additive:
  assumes "distinct (map Path xs)"
  shows "fst (deduplicate xs False) = map (\<lambda>x. (Path x, x)) xs \<and>
         length (fst (deduplicate xs False)) = length xs \<and>
         (\<forall>x\<in>set xs. map_of (fst (deduplicate xs False)) (Path x) = Some x) \<and>
         (\<forall>n<length xs. map_of (fst (deduplicate (take n xs) False)) (Path (xs ! n)) = None) \<and>
         UniqueSize (snd (deduplicate xs False)) = TotalSize (snd (deduplicate xs False))"
proof -
  have m: "fst (deduplicate xs False) = map (\<lambda>x. (Path x, x)) xs"
    by (rule nodedup_map [OF assms])
  have look: "map_of (map (\<lambda>x. (Path x, x)) xs) (Path x) = Some x" if "x \<in> set xs" for x
  proof (rule map_of_is_SomeI)
    show "distinct (map fst (map (\<lambda>x. (Path x, x)) xs))"
      using assms by (simp add: comp_def)
    show "(Path x, x) \<in> set (map (\<lambda>x. (Path x, x)) xs)"
      using that by simp
  qed
  have fresh: "map_of (fst (deduplicate (take n xs) False)) (Path (xs ! n)) = None"
    if n: "n < length xs" for n
  proof -
    have d: "distinct (map Path (take n xs))"
      using assms by (simp add: take_map [symmetric] distinct_take)
    have "map Path xs ! n \<notin> set (take n (map Path xs))"
      by (rule nth_not_in_take) (use assms n in simp_all)
    then have "Path (xs ! n) \<notin> Path ` set (take n xs)"
      using n by (simp add: take_map)
    then show ?thesis
      by (simp add: nodedup_map [OF d] map_of_eq_None_iff image_image)
  qed
  have u: "UniqueSize (snd (deduplicate xs False)) = TotalSize (snd (deduplicate xs False))"
    by (rule UniqueSize_eq_TotalSize_nodedup)
  from look fresh u show ?thesis
    unfolding m by simp
qed

theorem no_dedup_additive_witness:
  "distinct (map Path [rec_a10, rec_a5m, rec_a20]) \<and>
   fst (deduplicate [rec_a10, rec_a5m, rec_a20] False) =
     [(''/src/x/a.jpg'', rec_a10), (''/src/y/a.jpg'', rec_a5m), (''/src/z/a.jpg'', rec_a20)] \<and>
   UniqueSize (snd (deduplicate [rec_a10, rec_a5m, rec_a20] False)) =
     TotalSize (snd (deduplicate [rec_a10, rec_a5m, rec_a20] False))"
proof -
  have d: "distinct (map Path [rec_a10, rec_a5m, rec_a20])"
    by (simp add: rec_fields)
  have "fst (deduplicate [rec_a10, rec_a5m, rec_a20] False) =
          map (\<lambda>x. (Path x, x)) [rec_a10, rec_a5m, rec_a20]"
    and "UniqueSize (snd (deduplicate [rec_a10, rec_a5m, rec_a20] False)) =
          TotalSize (snd (deduplicate [rec_a10, rec_a5m, rec_a20] False))"
    using no_dedup_additive [OF d] by blast+
  with d show ?thesis
    by (simp add: rec_fields)
qed
section \<open>The copy stage\<close>

subsection \<open>Nothing to copy\<close>

lemma sched_step_Nil: "sched_step env dest parallel checkMeta oneDir fis ([], w) s = ([], w)"
  by (simp add: sched_step_def)

lemma foldl_sched_step_Nil:
  "foldl (sched_step env dest parallel checkMeta oneDir fis) ([], w) sched = ([], w)"
  by (induction sched) (simp_all add: sched_step_Nil)

lemma copyFiles_Nil:
  "0 \<le> parallel \<Longrightarrow>
     copyFiles env [] dest parallel checkMeta oneDir w = Returns (snd (MkdirAll env dest w))"
  by (simp add: copyFiles_def Let_def foldl_sched_step_Nil finish_def)

subsection \<open>Properties kept by every step\<close>

lemma sched_step_length [simp]:
  "length (fst (sched_step env dest par cm od fis st s)) = length (fst st)"
  by (simp add: sched_step_def Let_def)

lemma sched_step_invariant:
  assumes "P st"
    and "\<And>i k. i < length (fst st) \<Longrightarrow>
           \<not> (fst st ! i = AtSem \<and> par \<le> int (length (filter holds_slot (fst st)))) \<Longrightarrow>
           P ((fst st)[i := fst (copy_step env dest cm od (of_nat (length fis)) k (fis ! i) (fst st ! i, snd st))],
              snd (copy_step env dest cm od (of_nat (length fis)) k (fis ! i) (fst st ! i, snd st)))"
  shows "P (sched_step env dest par cm od fis st s)"
proof (cases "length (fst st) \<le> fst s \<or>
    (fst st ! fst s = AtSem \<and> par \<le> int (length (filter holds_slot (fst st))))")
  case True
  then have "sched_step env dest par cm od fis st s = st"
    by (auto simp: sched_step_def Let_def)
  with assms(1) show ?thesis by simp
next
  case False
  then have "sched_step env dest par cm od fis st s =
      ((fst st)[fst s := fst (copy_step env dest cm od (of_nat (length fis)) (snd s) (fis ! fst s) (fst st ! fst s, snd st))],
       snd (copy_step env dest cm od (of_nat (length fis)) (snd s) (fis ! fst s) (fst st ! fst s, snd st)))"
    by (auto simp: sched_step_def Let_def)
  moreover have "fst s < length (fst st)"
    using False by simp
  ultimately show ?thesis
    using assms(2) [of "fst s" "snd s"] False by simp
qed

lemma foldl_invariant:
  assumes "\<And>st s. P st \<Longrightarrow> P (f st s)" and "P st"
  shows "P (foldl f st xs)"
  using assms(2) by (induction xs arbitrary: st) (simp_all add: assms(1))

lemma funpow_invariant:
  assumes "\<And>st. P st \<Longrightarrow> P (f st)" and "P st"
  shows "P ((f ^^ n) st)"
  using assms(2) by (induction n) (simp_all add: assms(1))

lemma run_invariant:
  assumes step: "\<And>st s. P st \<Longrightarrow> P (sched_step env dest par cm od fis st s)"
    and init: "P st"
  shows "P (finish env dest par cm od fis (foldl (sched_step env dest par cm od fis) st sched))"
proof -
  have a: "P (foldl (sched_step env dest par cm od fis) st sched)"
    by (rule foldl_invariant [of P, OF step init])
  have d: "P (drain env dest par cm od fis st' i)" if "P st'" for st' i
    unfolding drain_def
    by (rule funpow_invariant [of P, OF _ that]) (simp add: drain_step_def step)
  show ?thesis
    unfolding finish_def by (rule foldl_invariant [of P, OF d a])
qed

lemma copy_step_Finished:
  "fst st = Finished \<Longrightarrow> copy_step env dest cm od tot k fi st = st"
  by (cases st) (simp add: copy_step_def)

lemma copy_step_not_AtSem:
  "fst (copy_step env dest cm od tot k fi st) \<noteq> AtSem"
  by (simp add: copy_step_def Let_def copy_failed_def
      split: copy_pc.splits option.splits prod.splits sum.splits)

lemma togo_zero: "togo env dest od fi st = 0 \<longleftrightarrow> fst st = Finished"
  by (simp add: togo_def read_togo_def Let_def split: copy_pc.splits)

lemma WriteAt_same: "n \<le> length old \<Longrightarrow> WriteAt old n (drop n old) = old"
  by (simp add: WriteAt_def)

lemma length_WriteAt:
  "length (WriteAt old n c) = max (n + length c) (length old)"
  by (simp add: WriteAt_def)

subsection \<open>Every goroutine comes to its end\<close>

lemma read_togo_le: "read_togo env fi w n \<le> 6"
  by (simp add: read_togo_def)

lemma read_togo_after_write:
  assumes c: "c = take bound (drop n (content w (file_id env (Path fi))))"
    and "c \<noteq> []"
    and b: "(case copy_err env (Path fi) of
               Some (err, m) \<Rightarrow> n < m \<and> bound = min (Suc (length (content w (file_id env (Path fi))))) (m - n)
             | None \<Rightarrow> bound = Suc (length (content w (file_id env (Path fi)))))"
  shows "read_togo env fi (w\<lparr>files := (files w)(d \<mapsto> WriteAt (content w d) n c)\<rparr>) (n + length c) \<le> 4"
proof -
  let ?s = "file_id env (Path fi)"
  let ?C = "content w ?s"
  let ?w = "w\<lparr>files := (files w)(d \<mapsto> WriteAt (content w d) n c)\<rparr>"
  have n: "n < length ?C"
    using assms(2) c by (cases "n < length ?C") simp_all
  show ?thesis
  proof (cases "copy_err env (Path fi)")
    case None
    with b c have cc: "c = drop n ?C" by simp
    have "content ?w ?s = ?C"
    proof (cases "d = ?s")
      case True
      then show ?thesis using n by (simp add: content_def cc WriteAt_same)
    next
      case False
      then show ?thesis by (simp add: content_def)
    qed
    then have "drop (n + length c) (content ?w ?s) = []"
      using n by (simp add: cc)
    then show ?thesis
      by (simp add: read_togo_def)
  next
    case (Some em)
    obtain err m where em: "em = (err, m)" by (cases em)
    from b Some em have nm: "n < m"
      and bd: "bound = min (Suc (length ?C)) (m - n)" by simp_all
    show ?thesis
    proof (cases "m \<le> n + length c")
      case True
      then show ?thesis by (simp add: read_togo_def Some em)
    next
      case False
      then have lc: "length c < m - n" by simp
      have "length c = min bound (length ?C - n)"
        by (simp add: c)
      with lc bd have l: "length c = length ?C - n"
        by (simp add: min_def split: if_splits)
      then have cc: "c = drop n ?C"
        using c by (metis length_drop take_all_iff order_refl min.absorb2 min.cobounded2 length_take)
      have "content ?w ?s = ?C"
      proof (cases "d = ?s")
        case True
        then show ?thesis using n by (simp add: content_def cc WriteAt_same)
      next
        case False
        then show ?thesis by (simp add: content_def)
      qed
      then have "drop (n + length c) (content ?w ?s) = []"
        using n by (simp add: cc)
      then show ?thesis
        by (simp add: read_togo_def)
    qed
  qed
qed

lemma togo_step:
  assumes "fst st \<noteq> Finished"
  shows "togo env dest od fi
           (copy_step env dest cm od tot (length (content (snd st) (file_id env (Path fi)))) fi st)
         < togo env dest od fi st"
proof -
  obtain pc w where st: "st = (pc, w)" by (cases st)
  let ?k = "length (content w (file_id env (Path fi)))"
  let ?d = "file_id env (destPath od dest fi)"
  show ?thesis
  proof (cases pc)
    case AtSem
    then show ?thesis by (simp add: st copy_step_def togo_def Let_def)
  next
    case AtOpen
    then show ?thesis
      by (simp add: st copy_step_def togo_def copy_failed_def Let_def split: option.splits)
  next
    case AtMkdir
    then show ?thesis
      by (simp add: st copy_step_def togo_def copy_failed_def MkdirAll_def Let_def split: option.splits)
  next
    case AtCreate
    have "read_togo env fi w' 0 < 7" for w'
      using read_togo_le [of env fi w' 0] by simp
    with AtCreate show ?thesis
      by (simp add: st copy_step_def togo_def copy_failed_def Let_def split: option.splits)
  next
    case (AtRead n)
    show ?thesis
    proof (cases "case copy_err env (Path fi) of Some (err, m) \<Rightarrow> m \<le> n | None \<Rightarrow> False")
      case True
      then show ?thesis
        by (simp add: st AtRead copy_step_def togo_def read_togo_def copy_failed_def Let_def
            split: option.splits prod.splits)
    next
      case False
      define bound where "bound = (case copy_err env (Path fi) of
          Some (err, m) \<Rightarrow> min (Suc ?k) (m - n) | None \<Rightarrow> Suc ?k)"
      define c where "c = take bound (drop n (content w (file_id env (Path fi))))"
      have sel: "(case copy_err env (Path fi) of
                   Some (err, m) \<Rightarrow> if m \<le> n then Inl err else Inr (min (Suc ?k) (m - n))
                 | None \<Rightarrow> Inr (Suc ?k)) = Inr bound"
        using False by (simp add: bound_def split: option.splits prod.splits)
      have step: "copy_step env dest cm od tot ?k fi (AtRead n, w) =
          (if c = [] then (AtChtimes, w) else (AtWrite n c, w))"
        by (simp add: copy_step_def Let_def sel c_def)
      have bpos: "0 < bound"
        using False by (simp add: bound_def split: option.splits prod.splits)
      show ?thesis
      proof (cases "c = []")
        case True
        then have "drop n (content w (file_id env (Path fi))) = []"
          using bpos by (simp add: c_def)
        then show ?thesis
          using False True by (simp add: st AtRead step togo_def read_togo_def)
      next
        case nonempty: False
        then have ne: "drop n (content w (file_id env (Path fi))) \<noteq> []"
          by (auto simp: c_def)
        have b: "(case copy_err env (Path fi) of
               Some (err, m) \<Rightarrow> n < m \<and> bound = min (Suc ?k) (m - n)
             | None \<Rightarrow> bound = Suc ?k)"
          using False by (simp add: bound_def split: option.splits prod.splits)
        have "read_togo env fi (w\<lparr>files := (files w)(?d \<mapsto> WriteAt (content w ?d) n c)\<rparr>)
            (n + length c) \<le> 4"
          by (rule read_togo_after_write [OF c_def nonempty b])
        moreover have "read_togo env fi w n = 6"
          using False ne by (simp add: read_togo_def)
        ultimately show ?thesis
          using nonempty by (simp add: st AtRead step togo_def Let_def)
      qed
    qed
  next
    case (AtWrite n c)
    then show ?thesis by (simp add: st copy_step_def togo_def Let_def)
  next
    case AtChtimes
    then show ?thesis by (simp add: st copy_step_def togo_def Let_def)
  next
    case AtCount
    then show ?thesis by (simp add: st copy_step_def togo_def Let_def)
  next
    case (AtSend m)
    then show ?thesis by (simp add: st copy_step_def togo_def Let_def)
  next
    case Finished
    with assms show ?thesis by (simp add: st)
  qed
qed

lemma togo_le: "togo env dest od fi st \<le> 10"
proof -
  have "read_togo env fi w n \<le> 10" "Suc (read_togo env fi w n) \<le> 10" for w n
    using read_togo_le [of env fi w n] by simp_all
  then show ?thesis
    by (simp add: togo_def Let_def split: copy_pc.splits)
qed

lemma drain_step_run:
  assumes "i < length pcs"
    and "\<not> (pcs ! i = AtSem \<and> par \<le> int (length (filter holds_slot pcs)))"
  shows "drain_step env dest par cm od fis i (pcs, w) =
     (pcs[i := fst (copy_step env dest cm od (of_nat (length fis))
                      (length (content w (file_id env (Path (fis ! i))))) (fis ! i) (pcs ! i, w))],
      snd (copy_step env dest cm od (of_nat (length fis))
             (length (content w (file_id env (Path (fis ! i))))) (fis ! i) (pcs ! i, w)))"
  using assms by (auto simp: drain_step_def sched_step_def Let_def)

lemma drain_step_blocked:
  assumes "length pcs \<le> i \<or> (pcs ! i = AtSem \<and> par \<le> int (length (filter holds_slot pcs)))"
  shows "drain_step env dest par cm od fis i (pcs, w) = (pcs, w)"
  using assms by (auto simp: drain_step_def sched_step_def Let_def)

lemma funpow_fixed: "f x = x \<Longrightarrow> (f ^^ n) x = x"
  by (induction n) simp_all

lemma funpow_drain:
  assumes i: "i < length pcs"
    and free: "\<not> (pcs ! i = AtSem \<and> par \<le> int (length (filter holds_slot pcs)))"
    and q: "\<And>pc v k. Q pc v \<Longrightarrow>
              Q (fst (copy_step env dest cm od (of_nat (length fis)) k (fis ! i) (pc, v)))
                (snd (copy_step env dest cm od (of_nat (length fis)) k (fis ! i) (pc, v)))"
    and q0: "Q (pcs ! i) w"
  shows "\<exists>pc' w'. (drain_step env dest par cm od fis i ^^ n) (pcs, w) = (pcs[i := pc'], w') \<and>
           (0 < n \<longrightarrow> pc' \<noteq> AtSem) \<and> Q pc' w' \<and>
           togo env dest od (fis ! i) (pc', w') \<le> togo env dest od (fis ! i) (pcs ! i, w) - n"
proof (induction n)
  case 0
  have "pcs[i := pcs ! i] = pcs" by simp
  with q0 show ?case
    by (intro exI [of _ "pcs ! i"] exI [of _ w]) simp
next
  case (Suc n)
  then obtain pc' w' where
    run: "(drain_step env dest par cm od fis i ^^ n) (pcs, w) = (pcs[i := pc'], w')"
    and ns: "0 < n \<longrightarrow> pc' \<noteq> AtSem" and qq: "Q pc' w'"
    and tg: "togo env dest od (fis ! i) (pc', w') \<le> togo env dest od (fis ! i) (pcs ! i, w) - n"
    by blast
  let ?r = "copy_step env dest cm od (of_nat (length fis))
              (length (content w' (file_id env (Path (fis ! i))))) (fis ! i) (pc', w')"
  have nb: "\<not> ((pcs[i := pc']) ! i = AtSem \<and>
               par \<le> int (length (filter holds_slot (pcs[i := pc']))))"
  proof (cases "0 < n")
    case True
    with ns i show ?thesis by simp
  next
    case False
    then have "n = 0" by simp
    with run have "pcs[i := pc'] = pcs" by simp
    with free show ?thesis by simp
  qed
  have il: "i < length (pcs[i := pc'])"
    using i by simp
  have "drain_step env dest par cm od fis i (pcs[i := pc'], w') =
      ((pcs[i := pc'])[i := fst ?r], snd ?r)"
    using drain_step_run [OF il nb, of env dest cm od fis w'] i by simp
  then have st: "(drain_step env dest par cm od fis i ^^ Suc n) (pcs, w) = (pcs[i := fst ?r], snd ?r)"
    by (simp add: run)
  have t: "togo env dest od (fis ! i) ?r \<le> togo env dest od (fis ! i) (pc', w') - 1"
  proof (cases "pc' = Finished")
    case True
    then have "?r = (pc', w')"
      by (simp add: copy_step_Finished)
    with True show ?thesis
      using togo_zero [of env dest od "fis ! i" "(pc', w')"] by simp
  next
    case False
    then show ?thesis
      using togo_step [of "(pc', w')" env dest od "fis ! i" cm "of_nat (length fis)"] by simp
  qed
  have "Q (fst ?r) (snd ?r)"
    by (rule q [OF qq])
  moreover have "fst ?r \<noteq> AtSem"
    by (rule copy_step_not_AtSem)
  moreover have "togo env dest od (fis ! i) (fst ?r, snd ?r) \<le>
      togo env dest od (fis ! i) (pcs ! i, w) - Suc n"
    using t tg by simp
  ultimately show ?case
    using st by blast
qed

lemma drain_runs:
  assumes i: "i < length pcs"
    and free: "\<not> (pcs ! i = AtSem \<and> par \<le> int (length (filter holds_slot pcs)))"
    and q: "\<And>pc v k. Q pc v \<Longrightarrow>
              Q (fst (copy_step env dest cm od (of_nat (length fis)) k (fis ! i) (pc, v)))
                (snd (copy_step env dest cm od (of_nat (length fis)) k (fis ! i) (pc, v)))"
    and q0: "Q (pcs ! i) w"
  shows "\<exists>w'. drain env dest par cm od fis (pcs, w) i = (pcs[i := Finished], w') \<and> Q Finished w'"
proof -
  obtain pc' w' where
    run: "(drain_step env dest par cm od fis i ^^ 10) (pcs, w) = (pcs[i := pc'], w')"
    and qq: "Q pc' w'"
    and tg: "togo env dest od (fis ! i) (pc', w') \<le> togo env dest od (fis ! i) (pcs ! i, w) - 10"
    using funpow_drain [of i pcs par Q env dest cm od fis w 10, OF i free q q0] by blast
  have "togo env dest od (fis ! i) (pc', w') = 0"
    using tg togo_le [of env dest od "fis ! i" "(pcs ! i, w)"] by simp
  then have "pc' = Finished"
    by (simp add: togo_zero)
  with run qq show ?thesis
    by (simp add: drain_def)
qed

lemma drain_blocked:
  assumes "length pcs \<le> i \<or> (pcs ! i = AtSem \<and> par \<le> int (length (filter holds_slot pcs)))"
  shows "drain env dest par cm od fis (pcs, w) i = (pcs, w)"
  unfolding drain_def by (rule funpow_fixed) (rule drain_step_blocked [OF assms])

lemma drain_cases:
  "(\<exists>w'. drain env dest par cm od fis (pcs, w) i = (pcs[i := Finished], w') \<and> i < length pcs) \<or>
   (drain env dest par cm od fis (pcs, w) i = (pcs, w) \<and> (i < length pcs \<longrightarrow> pcs ! i = AtSem))"
proof (cases "length pcs \<le> i \<or> (pcs ! i = AtSem \<and> par \<le> int (length (filter holds_slot pcs)))")
  case True
  then show ?thesis
    using drain_blocked [OF True] by auto
next
  case False
  then have i: "i < length pcs"
    and free: "\<not> (pcs ! i = AtSem \<and> par \<le> int (length (filter holds_slot pcs)))"
    by auto
  show ?thesis
    using drain_runs [of i pcs par "\<lambda>pc v. True" env dest cm od fis w, OF i free] i by simp
qed

lemma first_round:
  "length (fst (foldl (drain env dest par cm od fis) (pcs, w) xs)) = length pcs \<and>
   (\<forall>j < length pcs. j \<in> set xs \<or> \<not> holds_slot (pcs ! j) \<longrightarrow>
      \<not> holds_slot (fst (foldl (drain env dest par cm od fis) (pcs, w) xs) ! j))"
proof (induction xs arbitrary: pcs w)
  case Nil
  show ?case by simp
next
  case (Cons x xs)
  from drain_cases [of env dest par cm od fis pcs w x]
  obtain pcs1 w1 where d: "drain env dest par cm od fis (pcs, w) x = (pcs1, w1)"
    and l: "length pcs1 = length pcs"
    and x: "x < length pcs \<longrightarrow> \<not> holds_slot (pcs1 ! x)"
    and keep: "\<forall>j < length pcs. \<not> holds_slot (pcs ! j) \<longrightarrow> \<not> holds_slot (pcs1 ! j)"
    by (auto simp: holds_slot_def nth_list_update)
  from Cons.IH [of pcs1 w1] l x keep show ?case
    by (auto simp: d)
qed

lemma second_round:
  assumes par: "0 < par" and idle: "\<forall>pc \<in> set pcs. \<not> holds_slot pc"
  shows "length (fst (foldl (drain env dest par cm od fis) (pcs, w) xs)) = length pcs \<and>
   (\<forall>j < length pcs. j \<in> set xs \<or> pcs ! j = Finished \<longrightarrow>
      fst (foldl (drain env dest par cm od fis) (pcs, w) xs) ! j = Finished)"
  using idle
proof (induction xs arbitrary: pcs w)
  case Nil
  show ?case by simp
next
  case (Cons x xs)
  have none: "filter holds_slot pcs = []"
    using Cons.prems by (simp add: filter_empty_conv)
  show ?case
  proof (cases "x < length pcs")
    case True
    have free: "\<not> (pcs ! x = AtSem \<and> par \<le> int (length (filter holds_slot pcs)))"
      using par by (simp add: none)
    obtain w1 where d: "drain env dest par cm od fis (pcs, w) x = (pcs[x := Finished], w1)"
      using drain_runs [of x pcs par "\<lambda>pc v. True" env dest cm od fis w, OF True free] by auto
    have idle1: "\<forall>pc \<in> set (pcs[x := Finished]). \<not> holds_slot pc"
      using Cons.prems by (auto simp: holds_slot_def dest!: set_update_subset_insert [THEN subsetD])
    have keep: "pcs[x := Finished] ! j = Finished"
      if "j < length pcs" "j = x \<or> pcs ! j = Finished" for j
      using that True by (auto simp: nth_list_update)
    have ih: "length (fst (foldl (drain env dest par cm od fis) (pcs[x := Finished], w1) xs)) = length pcs"
      "\<And>j. j < length pcs \<Longrightarrow> j \<in> set xs \<or> pcs[x := Finished] ! j = Finished \<Longrightarrow>
         fst (foldl (drain env dest par cm od fis) (pcs[x := Finished], w1) xs) ! j = Finished"
      using Cons.IH [OF idle1, of w1] by simp_all blast
    show ?thesis
    proof (intro conjI allI impI)
      show "length (fst (foldl (drain env dest par cm od fis) (pcs, w) (x # xs))) = length pcs"
        by (simp add: d ih(1))
    next
      fix j
      assume j: "j < length pcs" and c: "j \<in> set (x # xs) \<or> pcs ! j = Finished"
      have "j \<in> set xs \<or> pcs[x := Finished] ! j = Finished"
        using c keep [OF j] by auto
      from ih(2) [OF j this]
      show "fst (foldl (drain env dest par cm od fis) (pcs, w) (x # xs)) ! j = Finished"
        by (simp add: d)
    qed
  next
    case False
    then have d: "drain env dest par cm od fis (pcs, w) x = (pcs, w)"
      by (intro drain_blocked) simp
    from Cons.IH [OF Cons.prems, of w] False show ?thesis
      by (auto simp: d)
  qed
qed

lemma finish_all:
  assumes "0 < par" and "length (fst st) = length fis"
  shows "list_all (\<lambda>pc. pc = Finished) (fst (finish env dest par cm od fis st))"
proof -
  obtain pcs w where st: "st = (pcs, w)" by (cases st)
  let ?n = "length fis"
  let ?st1 = "foldl (drain env dest par cm od fis) (pcs, w) [0 ..< ?n]"
  have l: "length pcs = ?n"
    using assms(2) st by simp
  have l1: "length (fst ?st1) = ?n"
    and idle: "\<forall>j < ?n. \<not> holds_slot (fst ?st1 ! j)"
    using first_round [of env dest par cm od fis pcs w "[0 ..< ?n]"] l by simp_all
  have idle1: "\<forall>pc \<in> set (fst ?st1). \<not> holds_slot pc"
    using idle l1 by (auto simp: in_set_conv_nth)
  have "\<forall>j < ?n. fst (foldl (drain env dest par cm od fis) (fst ?st1, snd ?st1) [0 ..< ?n]) ! j = Finished"
    and "length (fst (foldl (drain env dest par cm od fis) (fst ?st1, snd ?st1) [0 ..< ?n])) = ?n"
    using second_round [OF assms(1) idle1, of env dest cm od fis "snd ?st1" "[0 ..< ?n]"] l1
    by simp_all
  then show ?thesis
    by (simp add: finish_def st list_all_length)
qed

lemma foldl_sched_step_length:
  "length (fst (foldl (sched_step env dest par cm od fis) st sched)) = length (fst st)"
  by (induction sched arbitrary: st) simp_all

lemma copyFiles_returns:
  assumes "0 < parallel"
  shows "copyFiles env fs dest parallel checkMeta oneDir w =
     Returns (snd (finish env dest parallel checkMeta oneDir (map snd fs)
        (foldl (sched_step env dest parallel checkMeta oneDir (map snd fs))
           (map (\<lambda>fi. AtSem) (map snd fs), snd (MkdirAll env dest w)) (copy_sched env))))"
proof -
  have "list_all (\<lambda>pc. pc = Finished) (fst (finish env dest parallel checkMeta oneDir (map snd fs)
        (foldl (sched_step env dest parallel checkMeta oneDir (map snd fs))
           (map (\<lambda>fi. AtSem) (map snd fs), snd (MkdirAll env dest w)) (copy_sched env))))"
    by (rule finish_all [OF assms]) (simp add: foldl_sched_step_length)
  with assms show ?thesis
    by (simp add: copyFiles_def Let_def)
qed

subsection \<open>What one operation does\<close>

lemma copy_step_simps:
  "copy_step env dest cm od tot k fi (AtSem, w) = (AtOpen, w)"
  "copy_step env dest cm od tot k fi (AtOpen, w) =
     (case os_Open env w (Path fi) of
        Some err \<Rightarrow> copy_failed fi (''open: '' @ err) w
      | None \<Rightarrow> (AtMkdir, w))"
  "copy_step env dest cm od tot k fi (AtMkdir, w) =
     (case mkdir_err env (Dir (destPath od dest fi)) of
        Some err \<Rightarrow> copy_failed fi (''mkdir: '' @ err) w
      | None \<Rightarrow> (AtCreate, w\<lparr>made_dirs := made_dirs w @ [Dir (destPath od dest fi)]\<rparr>))"
  "copy_step env dest cm od tot k fi (AtCreate, w) =
     (case create_err env (destPath od dest fi) of
        Some err \<Rightarrow> copy_failed fi (''create: '' @ err) w
      | None \<Rightarrow> (AtRead 0, w\<lparr>files := (files w)(file_id env (destPath od dest fi) \<mapsto> [])\<rparr>))"
  "copy_step env dest cm od tot k fi (AtWrite n chunk, w) =
     (AtRead (n + length chunk),
      w\<lparr>files := (files w)(file_id env (destPath od dest fi) \<mapsto>
           WriteAt (content w (file_id env (destPath od dest fi))) n chunk)\<rparr>)"
  "copy_step env dest cm od tot k fi (AtChtimes, w) =
     (AtCount,
      if cm \<and> HasMeta fi \<and> CreationDate fi \<noteq> 0 \<and> chtimes_err env (destPath od dest fi) = None
      then w\<lparr>mtimes := (mtimes w)(file_id env (destPath od dest fi) \<mapsto> CreationDate fi)\<rparr> else w)"
  "copy_step env dest cm od tot k fi (AtCount, w) =
     (AtSend (progressMessage ''Copying files...'' (copied w + 1) tot (Path fi)),
      w\<lparr>copied := copied w + 1\<rparr>)"
  "copy_step env dest cm od tot k fi (AtSend msg, w) = (Finished, send msg w)"
  "copy_step env dest cm od tot k fi (Finished, w) = (Finished, w)"
  by (simp_all add: copy_step_def Let_def MkdirAll_def split: option.splits)

lemma copy_step_AtRead:
  "copy_step env dest cm od tot k fi (AtRead n, w) =
     (case copy_err env (Path fi) of
        None \<Rightarrow>
          if take (Suc k) (drop n (content w (file_id env (Path fi)))) = [] then (AtChtimes, w)
          else (AtWrite n (take (Suc k) (drop n (content w (file_id env (Path fi))))), w)
      | Some em \<Rightarrow>
          if snd em \<le> n then copy_failed fi (''copy: '' @ fst em) w
          else if take (min (Suc k) (snd em - n)) (drop n (content w (file_id env (Path fi)))) = []
          then (AtChtimes, w)
          else (AtWrite n (take (min (Suc k) (snd em - n))
                  (drop n (content w (file_id env (Path fi))))), w))"
  by (auto simp: copy_step_def Let_def min_def split: option.splits prod.splits)

lemma copy_failed_simps:
  "fst (copy_failed fi msg w) = AtSend (errorMessage (Path fi) msg)"
  "files (snd (copy_failed fi msg w)) = files w"
  "copied (snd (copy_failed fi msg w)) = copied w"
  "failedCopy (snd (copy_failed fi msg w)) = failedCopy w + 1"
  by (simp_all add: copy_failed_def)

lemma send_simps:
  "files (send m w) = files w" "copied (send m w) = copied w"
  "failedCopy (send m w) = failedCopy w" "progChan (send m w) = progChan w @ [m]"
  by (simp_all add: send_def)

lemma copy_step_files:
  assumes "q \<noteq> file_id env (destPath od dest fi)"
  shows "files (snd (copy_step env dest cm od tot k fi st)) q = files (snd st) q"
proof -
  obtain pc w where st: "st = (pc, w)" by (cases st)
  show ?thesis
    using assms
    by (cases pc)
      (simp_all add: st copy_step_simps copy_step_AtRead copy_failed_simps send_simps
        split: option.splits)
qed

lemma copy_step_exists:
  assumes "files (snd st) q \<noteq> None"
  shows "files (snd (copy_step env dest cm od tot k fi st)) q \<noteq> None"
proof -
  obtain pc w where st: "st = (pc, w)" by (cases st)
  show ?thesis
    using assms
    by (cases pc)
      (simp_all add: st copy_step_simps copy_step_AtRead copy_failed_simps send_simps
        split: option.splits)
qed

lemma copy_step_total:
  "copied (snd (copy_step env dest cm od tot k fi st)) +
   failedCopy (snd (copy_step env dest cm od tot k fi st)) =
   copied (snd st) + failedCopy (snd st) +
     (if counted (fst (copy_step env dest cm od tot k fi st)) \<and> \<not> counted (fst st) then 1 else 0)"
proof -
  obtain pc w where st: "st = (pc, w)" by (cases st)
  show ?thesis
    by (cases pc)
      (simp_all add: st copy_step_simps copy_step_AtRead copy_failed_simps send_simps counted_def
        split: option.splits)
qed

lemma copy_step_counted:
  assumes "counted (fst st)"
  shows "counted (fst (copy_step env dest cm od tot k fi st))"
proof -
  obtain pc w where st: "st = (pc, w)" by (cases st)
  show ?thesis
    using assms
    by (cases pc) (simp_all add: st copy_step_simps counted_def)
qed

lemma copy_step_no_failure:
  assumes "open_err env (Path fi) = None" "files (snd st) (file_id env (Path fi)) \<noteq> None"
    and "mkdir_err env (Dir (destPath od dest fi)) = None"
    and "create_err env (destPath od dest fi) = None"
    and "copy_err env (Path fi) = None"
  shows "failedCopy (snd (copy_step env dest cm od tot k fi st)) = failedCopy (snd st)"
proof -
  obtain pc w where st: "st = (pc, w)" by (cases st)
  have o: "os_Open env w (Path fi) = None"
    using assms(1,2) by (auto simp: os_Open_def st)
  show ?thesis
    by (cases pc)
      (simp_all add: st copy_step_simps copy_step_AtRead send_simps o assms(3,4,5))
qed

lemma filter_update_same:
  "i < length xs \<Longrightarrow> P y = P (xs ! i) \<Longrightarrow> length (filter P (xs[i := y])) = length (filter P xs)"
  by (induction xs arbitrary: i) (auto split: nat.splits)

lemma filter_update_more:
  "i < length xs \<Longrightarrow> P y \<Longrightarrow> \<not> P (xs ! i) \<Longrightarrow>
     length (filter P (xs[i := y])) = Suc (length (filter P xs))"
  by (induction xs arbitrary: i) (auto split: nat.splits)

lemma WriteAt_append:
  "n \<le> length b \<Longrightarrow> take (length c) (drop n b) = c \<Longrightarrow> WriteAt (take n b) n c = take (n + length c) b"
  by (simp add: WriteAt_def take_add)

lemma copy_step_copied_so_far:
  assumes "open_err env (Path fi) = None" "files (snd st) (file_id env (Path fi)) = Some b"
    and "mkdir_err env (Dir (destPath od dest fi)) = None"
    and "create_err env (destPath od dest fi) = None"
    and "copy_err env (Path fi) = None"
    and "copied_so_far b (fst st) (files (snd st) (file_id env (destPath od dest fi)))"
  shows "copied_so_far b (fst (copy_step env dest cm od tot k fi st))
           (files (snd (copy_step env dest cm od tot k fi st)) (file_id env (destPath od dest fi)))"
proof -
  obtain pc w where st: "st = (pc, w)" by (cases st)
  let ?d = "file_id env (destPath od dest fi)"
  have o: "os_Open env w (Path fi) = None"
    using assms(1,2) by (simp add: os_Open_def st)
  show ?thesis
  proof (cases pc)
    case (AtRead n)
    have c: "content w (file_id env (Path fi)) = b"
      using assms(2) by (simp add: st content_def)
    from assms(6) have f: "files w ?d = Some (take n b)" and n: "n \<le> length b"
      by (simp_all add: st AtRead copied_so_far_def)
    show ?thesis
    proof (cases "take (Suc k) (drop n b) = []")
      case True
      then have "length b \<le> n" by simp
      with n f have "files w ?d = Some b" by simp
      with True show ?thesis
        by (simp add: st AtRead copy_step_AtRead assms(5) c copied_so_far_def)
    next
      case False
      with f n show ?thesis
        by (simp add: st AtRead copy_step_AtRead assms(5) c copied_so_far_def min_def)
    qed
  next
    case (AtWrite n c)
    from assms(6) have f: "files w ?d = Some (take n b)" and n: "n \<le> length b"
      and p: "take (length c) (drop n b) = c"
      by (simp_all add: st AtWrite copied_so_far_def)
    have l: "n + length c \<le> length b"
    proof -
      have "length c = min (length c) (length b - n)"
        using arg_cong [OF p, of length] by simp
      with n show ?thesis by simp
    qed
    have "WriteAt (content w ?d) n c = take (n + length c) b"
      using WriteAt_append [OF n p] f by (simp add: content_def)
    with l show ?thesis
      by (simp add: st AtWrite copy_step_simps copied_so_far_def)
  qed (use assms(3,4,6) o in \<open>simp_all add: st copy_step_simps copied_so_far_def send_simps\<close>)
qed

subsection \<open>What the whole stage does, under every schedule\<close>

lemma MkdirAll_keeps:
  "files (snd (MkdirAll env p w)) = files w"
  "copied (snd (MkdirAll env p w)) = copied w"
  "failedCopy (snd (MkdirAll env p w)) = failedCopy w"
  by (simp_all add: MkdirAll_def split: option.splits)

lemma copyFiles_invariant:
  assumes ret: "copyFiles env fs dest par cm od w = Returns w'"
    and init: "P (map (\<lambda>fi. AtSem) fs, snd (MkdirAll env dest w))"
    and step: "\<And>pcs v i k. P (pcs, v) \<Longrightarrow> length pcs = length fs \<Longrightarrow> i < length fs \<Longrightarrow>
        P (pcs[i := fst (copy_step env dest cm od (of_nat (length fs)) k (snd (fs ! i)) (pcs ! i, v))],
           snd (copy_step env dest cm od (of_nat (length fs)) k (snd (fs ! i)) (pcs ! i, v)))"
  shows "P (replicate (length fs) Finished, w')"
proof -
  let ?fis = "map snd fs"
  let ?init = "(map (\<lambda>fi. AtSem) ?fis, snd (MkdirAll env dest w))"
  let ?st = "finish env dest par cm od ?fis (foldl (sched_step env dest par cm od ?fis) ?init (copy_sched env))"
  define R where "R st \<longleftrightarrow> P st \<and> length (fst st) = length fs" for st :: "copy_pc list \<times> World"
  have r0: "R ?init"
    using init by (simp add: R_def comp_def)
  have rs: "R (sched_step env dest par cm od ?fis st s)" if "R st" for st s
  proof (rule sched_step_invariant [of R, OF that])
    fix i k
    assume i: "i < length (fst st)"
    from that have p: "P (fst st, snd st)" and l: "length (fst st) = length fs"
      by (simp_all add: R_def)
    from step [OF p l, of i k] i l
    show "R ((fst st)[i := fst (copy_step env dest cm od (of_nat (length ?fis)) k (?fis ! i)
                               (fst st ! i, snd st))],
             snd (copy_step env dest cm od (of_nat (length ?fis)) k (?fis ! i) (fst st ! i, snd st)))"
      by (simp add: R_def)
  qed
  have r: "R ?st"
    by (rule run_invariant [of R, OF rs r0])
  from ret have fin: "list_all (\<lambda>pc. pc = Finished) (fst ?st)" and w': "w' = snd ?st"
    by (simp_all add: copyFiles_def Let_def split: if_splits)
  from r have l: "length (fst ?st) = length fs" and p: "P ?st"
    by (simp_all add: R_def)
  have "fst ?st = replicate (length fs) Finished"
    using fin l by (auto simp: list_all_length intro!: nth_equalityI)
  with w' have eq: "(replicate (length fs) Finished, w') = ?st"
    by (simp add: prod_eq_iff)
  show ?thesis
    by (subst eq) (rule p)
qed

lemma copyFiles_frame:
  assumes ret: "copyFiles env fs dest parallel checkMeta oneDir w = Returns w'"
    and q: "q \<notin> (\<lambda>fi. file_id env (destPath oneDir dest fi)) ` snd ` set fs"
  shows "files w' q = files w q"
proof -
  have "files (snd (replicate (length fs) Finished, w')) q = files w q"
  proof (rule copyFiles_invariant [of env fs dest parallel checkMeta oneDir w w'
        "\<lambda>st :: copy_pc list \<times> World. files (snd st) q = files w q", OF ret])
    show "files (snd (map (\<lambda>fi. AtSem) fs, snd (MkdirAll env dest w))) q = files w q"
      by (simp add: MkdirAll_keeps)
  next
    fix pcs :: "copy_pc list" and v :: World and i k :: nat
    assume p: "files (snd (pcs, v)) q = files w q" and i: "i < length fs"
    have "snd (fs ! i) \<in> snd ` set fs"
      using i by simp
    with q have "q \<noteq> file_id env (destPath oneDir dest (snd (fs ! i)))"
      by blast
    from copy_step_files [OF this] p
    show "files (snd (pcs[i := fst (copy_step env dest checkMeta oneDir (of_nat (length fs)) k
                                     (snd (fs ! i)) (pcs ! i, v))],
                      snd (copy_step env dest checkMeta oneDir (of_nat (length fs)) k
                             (snd (fs ! i)) (pcs ! i, v)))) q = files w q"
      by simp
  qed
  then show ?thesis by simp
qed

lemma filter_counted_Finished:
  "length (filter counted (replicate n Finished)) = n"
  by (simp add: counted_def)

lemma copyFiles_total:
  assumes ret: "copyFiles env fs dest parallel checkMeta oneDir w = Returns w'"
  shows "copied w' + failedCopy w' = copied w + failedCopy w + of_nat (length fs)"
proof -
  let ?P = "\<lambda>st :: copy_pc list \<times> World. copied (snd st) + failedCopy (snd st) =
      copied w + failedCopy w + of_nat (length (filter counted (fst st)))"
  have "?P (replicate (length fs) Finished, w')"
  proof (rule copyFiles_invariant [of env fs dest parallel checkMeta oneDir w w' ?P, OF ret])
    show "?P (map (\<lambda>fi. AtSem) fs, snd (MkdirAll env dest w))"
      by (simp add: MkdirAll_keeps counted_def filter_empty_conv)
  next
    fix pcs :: "copy_pc list" and v :: World and i k :: nat
    assume p: "?P (pcs, v)" and l: "length pcs = length fs" and i: "i < length fs"
    let ?r = "copy_step env dest checkMeta oneDir (of_nat (length fs)) k (snd (fs ! i)) (pcs ! i, v)"
    have il: "i < length pcs" using i l by simp
    have t: "copied (snd ?r) + failedCopy (snd ?r) =
        copied v + failedCopy v + (if counted (fst ?r) \<and> \<not> counted (pcs ! i) then 1 else 0)"
      using copy_step_total [of env dest checkMeta oneDir "of_nat (length fs)" k "snd (fs ! i)"
          "(pcs ! i, v)"] by simp
    show "?P (pcs[i := fst ?r], snd ?r)"
    proof (cases "counted (fst ?r) \<and> \<not> counted (pcs ! i)")
      case True
      then have "length (filter counted (pcs[i := fst ?r])) = Suc (length (filter counted pcs))"
        using filter_update_more [OF il, of counted "fst ?r"] by simp
      with t p True show ?thesis by simp
    next
      case False
      then have "counted (fst ?r) = counted (pcs ! i)"
        using copy_step_counted [of "(pcs ! i, v)" env dest checkMeta oneDir "of_nat (length fs)" k
            "snd (fs ! i)"] by auto
      then have "length (filter counted (pcs[i := fst ?r])) = length (filter counted pcs)"
        by (rule filter_update_same [OF il])
      with t p False show ?thesis by simp
    qed
  qed
  then show ?thesis
    by (simp add: filter_counted_Finished)
qed

lemma copyFiles_no_failure:
  assumes ret: "copyFiles env fs dest parallel checkMeta oneDir w = Returns w'"
    and ok: "\<forall>fi \<in> snd ` set fs.
        open_err env (Path fi) = None \<and> files w (file_id env (Path fi)) \<noteq> None \<and>
        mkdir_err env (Dir (destPath oneDir dest fi)) = None \<and>
        create_err env (destPath oneDir dest fi) = None \<and> copy_err env (Path fi) = None"
  shows "failedCopy w' = failedCopy w"
proof -
  let ?P = "\<lambda>st :: copy_pc list \<times> World. failedCopy (snd st) = failedCopy w \<and>
      (\<forall>fi \<in> snd ` set fs. files (snd st) (file_id env (Path fi)) \<noteq> None)"
  have "?P (replicate (length fs) Finished, w')"
  proof (rule copyFiles_invariant [of env fs dest parallel checkMeta oneDir w w' ?P, OF ret])
    show "?P (map (\<lambda>fi. AtSem) fs, snd (MkdirAll env dest w))"
      using ok by (simp add: MkdirAll_keeps)
  next
    fix pcs :: "copy_pc list" and v :: World and i k :: nat
    assume p: "?P (pcs, v)" and i: "i < length fs"
    let ?fi = "snd (fs ! i)"
    let ?r = "copy_step env dest checkMeta oneDir (of_nat (length fs)) k ?fi (pcs ! i, v)"
    have m: "?fi \<in> snd ` set fs"
      using i by simp
    from ok m have h: "open_err env (Path ?fi) = None"
      "mkdir_err env (Dir (destPath oneDir dest ?fi)) = None"
      "create_err env (destPath oneDir dest ?fi) = None" "copy_err env (Path ?fi) = None"
      by blast+
    from p m have e: "files (snd (pcs ! i, v)) (file_id env (Path ?fi)) \<noteq> None"
      by auto
    have "failedCopy (snd ?r) = failedCopy v"
      using copy_step_no_failure [OF h(1) e h(2) h(3) h(4), of checkMeta "of_nat (length fs)" k]
      by simp
    moreover have "files (snd ?r) (file_id env (Path fi)) \<noteq> None" if "fi \<in> snd ` set fs" for fi
    proof (rule copy_step_exists)
      from p that show "files (snd (pcs ! i, v)) (file_id env (Path fi)) \<noteq> None"
        by auto
    qed
    ultimately show "?P (pcs[i := fst ?r], snd ?r)"
      using p by simp
  qed
  then show ?thesis by simp
qed

lemma copyFiles_contents:
  assumes ret: "copyFiles env fs dest parallel checkMeta oneDir w = Returns w'"
    and ok: "\<forall>fi \<in> snd ` set fs.
        open_err env (Path fi) = None \<and> files w (file_id env (Path fi)) \<noteq> None \<and>
        mkdir_err env (Dir (destPath oneDir dest fi)) = None \<and>
        create_err env (destPath oneDir dest fi) = None \<and> copy_err env (Path fi) = None"
    and noalias: "\<forall>a \<in> snd ` set fs. \<forall>b \<in> snd ` set fs.
        file_id env (Path a) \<noteq> file_id env (destPath oneDir dest b)"
    and dist: "distinct (map (\<lambda>x. file_id env (destPath oneDir dest (snd x))) fs)"
    and fi: "fi \<in> snd ` set fs"
  shows "files w' (file_id env (destPath oneDir dest fi)) = files w (file_id env (Path fi))"
proof -
  let ?s = "\<lambda>i. file_id env (Path (snd (fs ! i)))"
  let ?d = "\<lambda>i. file_id env (destPath oneDir dest (snd (fs ! i)))"
  let ?P = "\<lambda>st :: copy_pc list \<times> World.
      (\<forall>i < length fs. files (snd st) (?s i) = files w (?s i)) \<and>
      (\<forall>i < length fs. copied_so_far (content w (?s i)) (fst st ! i) (files (snd st) (?d i)))"
  have mem: "snd (fs ! i) \<in> snd ` set fs" if "i < length fs" for i
    using that by simp
  have src: "files w (?s i) = Some (content w (?s i))" if "i < length fs" for i
    using ok mem [OF that] by (auto simp: content_def)
  have "?P (replicate (length fs) Finished, w')"
  proof (rule copyFiles_invariant [of env fs dest parallel checkMeta oneDir w w' ?P, OF ret])
    show "?P (map (\<lambda>fi. AtSem) fs, snd (MkdirAll env dest w))"
      by (simp add: MkdirAll_keeps copied_so_far_def)
  next
    fix pcs :: "copy_pc list" and v :: World and j k :: nat
    assume p: "?P (pcs, v)" and l: "length pcs = length fs" and j: "j < length fs"
    let ?fi = "snd (fs ! j)"
    let ?r = "copy_step env dest checkMeta oneDir (of_nat (length fs)) k ?fi (pcs ! j, v)"
    from ok mem [OF j] have h: "open_err env (Path ?fi) = None"
      "mkdir_err env (Dir (destPath oneDir dest ?fi)) = None"
      "create_err env (destPath oneDir dest ?fi) = None" "copy_err env (Path ?fi) = None"
      by blast+
    have a: "files (snd ?r) (?s i) = files w (?s i)" if i: "i < length fs" for i
    proof -
      have "?s i \<noteq> ?d j"
        using noalias mem [OF i] mem [OF j] by blast
      from copy_step_files [OF this] p i show ?thesis
        by simp
    qed
    have b: "copied_so_far (content w (?s i)) (pcs[j := fst ?r] ! i) (files (snd ?r) (?d i))"
      if i: "i < length fs" for i
    proof (cases "i = j")
      case True
      have sj: "files (snd (pcs ! j, v)) (file_id env (Path ?fi)) = Some (content w (?s j))"
        using p j src [OF j] by simp
      have cj: "copied_so_far (content w (?s j)) (fst (pcs ! j, v))
          (files (snd (pcs ! j, v)) (file_id env (destPath oneDir dest ?fi)))"
        using p j by simp
      from copy_step_copied_so_far [OF h(1) sj h(2) h(3) h(4) cj, of checkMeta "of_nat (length fs)" k]
      show ?thesis
        using True j l by simp
    next
      case False
      have "?d i \<noteq> ?d j"
        using dist i j False by (simp add: distinct_conv_nth)
      from copy_step_files [OF this] have "files (snd ?r) (?d i) = files v (?d i)"
        by simp
      with p i False show ?thesis
        by simp
    qed
    from a b show "?P (pcs[j := fst ?r], snd ?r)"
      by simp
  qed
  then have fin: "\<forall>i < length fs. copied_so_far (content w (?s i)) Finished (files w' (?d i))"
    by simp
  from fi obtain i where i: "i < length fs" and e: "fi = snd (fs ! i)"
    by (auto simp: in_set_conv_nth)
  from fin i have "files w' (?d i) = Some (content w (?s i))"
    by (simp add: copied_so_far_def)
  with src [OF i] e show ?thesis
    by simp
qed

section \<open>The enumerator\<close>

subsection \<open>What the walk yields\<close>

lemma walkFiles_func_Failed [simp]:
  "walkFiles_func v pats path (Failed e) acc = (RetNil, acc)"
  by (simp add: walkFiles_func_def)

lemma walkFiles_func_dir:
  "walkFiles_func v pats path (Entry True) acc =
     (if shouldExclude path pats then SkipDir else RetNil, acc)"
  by (simp add: walkFiles_func_def)

lemma walkFiles_func_file:
  "walkFiles_func v pats path (Entry False) acc =
     (RetNil, acc @ filter (accepted v pats) [path])"
  by (simp add: walkFiles_func_def accepted_def Let_def)

lemma walkDir_walkFiles_func:
  "walkDir path d (walkFiles_func v pats) acc =
     (RetNil, acc @ filter (accepted v pats) (unpruned pats path d))"
  "walkDir_entries path ds (walkFiles_func v pats) acc =
     (RetNil, acc @ filter (accepted v pats) (unpruned_entries pats path ds))"
proof (induction pats path d and pats path ds arbitrary: acc and acc
    rule: unpruned_unpruned_entries.induct)
  case (1 excludePatterns path n)
  show ?case
    by (simp add: walkFiles_func_file)
next
  case (2 excludePatterns path n dirs rerr)
  show ?case
  proof (cases "shouldExclude path excludePatterns")
    case True
    then show ?thesis
      by (simp add: walkFiles_func_dir)
  next
    case False
    with 2 show ?thesis
      by (cases rerr) (simp_all add: walkFiles_func_dir)
  qed
next
  case (3 excludePatterns path)
  show ?case by simp
next
  case (4 excludePatterns path d ds)
  then show ?case by simp
qed

lemma WalkDir_walkFiles_func:
  "WalkDir fs source (walkFiles_func v pats) [] =
     (None, filter (accepted v pats) (candidates fs source True pats))"
  by (cases fs) (simp_all add: WalkDir_def candidates_def walkDir_walkFiles_func)

lemma walkFiles_entries_eq:
  "walkFiles_entries source v pats entries = filter (accepted v pats) (direct_files source entries)"
  by (induction entries) (simp_all add: direct_files_def accepted_def Let_def)

lemma walkFiles_eq:
  "walkFiles env source v recursive pats w =
     (filter (accepted v pats) (candidates (tree env) source recursive pats), w)"
proof (cases recursive)
  case True
  then show ?thesis
    by (simp add: walkFiles_def WalkDir_walkFiles_func)
next
  case False
  obtain entries rerr where r: "ReadDir (tree env) = (entries, rerr)"
    by (cases "ReadDir (tree env)")
  with False show ?thesis
    by (cases rerr) (simp_all add: walkFiles_def candidates_def walkFiles_entries_eq)
qed

lemma walkFiles_cfg_eq:
  "walkFiles_cfg env source cfg w =
     (filter (accepted (ValidExts cfg) (ExcludePatterns cfg))
        (candidates (tree env) source (Recursive cfg) (ExcludePatterns cfg)), w)"
proof (cases "Recursive cfg")
  case True
  then show ?thesis
    by (simp add: walkFiles_cfg_def WalkDir_walkFiles_func)
next
  case False
  obtain entries rerr where r: "ReadDir (tree env) = (entries, rerr)"
    by (cases "ReadDir (tree env)")
  with False show ?thesis
    by (cases rerr) (simp_all add: walkFiles_cfg_def candidates_def walkFiles_entries_eq)
qed

lemma candidates_unreadable: "unreadable fs \<Longrightarrow> candidates fs source recursive pats = []"
  by (cases fs rule: unreadable.cases) (auto simp: candidates_def)

lemma unpruned_forget_errors:
  "unpruned pats path (forget_errors d) = unpruned pats path d"
  "unpruned_entries pats path (map forget_errors ds) = unpruned_entries pats path ds"
proof (induction pats path d and pats path ds rule: unpruned_unpruned_entries.induct)
  case (4 excludePatterns path d ds)
  have "entry_name (forget_errors d) = entry_name d"
    by (cases d) simp_all
  with 4 show ?case by simp
qed simp_all

lemma unpruned_entries_append:
  "unpruned_entries pats path (ds1 @ ds2) =
     unpruned_entries pats path ds1 @ unpruned_entries pats path ds2"
  by (induction ds1) simp_all

lemma accepted_sound:
  "p \<in> set (fst (walkFiles env source v recursive pats w)) \<Longrightarrow>
     v (ToLower (Ext p)) = Some True \<and> \<not> shouldExclude p pats"
  by (simp add: walkFiles_eq accepted_def)

lemma Contains_iff: "Contains s sub \<longleftrightarrow> (\<exists>pre suf. s = pre @ sub @ suf)"
proof -
  have hp: "HasPrefix s sub \<longleftrightarrow> (\<exists>suf. s = sub @ suf)" for s sub
    by (induction s sub rule: HasPrefix.induct) auto
  show ?thesis
  proof (induction s)
    case Nil
    then show ?case by auto
  next
    case (Cons c cs)
    show ?case
    proof
      assume "Contains (c # cs) sub"
      then consider "HasPrefix (c # cs) sub" | "Contains cs sub" by auto
      then show "\<exists>pre suf. c # cs = pre @ sub @ suf"
      proof cases
        case 1
        then obtain suf where "c # cs = sub @ suf" using hp by blast
        then have "c # cs = [] @ sub @ suf" by simp
        then show ?thesis by blast
      next
        case 2
        then obtain pre suf where "cs = pre @ sub @ suf" using Cons.IH by blast
        then have "c # cs = (c # pre) @ sub @ suf" by simp
        then show ?thesis by blast
      qed
    next
      assume "\<exists>pre suf. c # cs = pre @ sub @ suf"
      then obtain pre suf where e: "c # cs = pre @ sub @ suf" by blast
      show "Contains (c # cs) sub"
      proof (cases pre)
        case Nil
        with e have "HasPrefix (c # cs) sub" using hp by auto
        then show ?thesis by simp
      next
        case (Cons a pre')
        with e have "cs = pre' @ sub @ suf" by simp
        then have "Contains cs sub" using Cons.IH by blast
        then show ?thesis by simp
      qed
    qed
  qed
qed

lemma shouldExclude_iff:
  "shouldExclude path pats \<longleftrightarrow> (\<exists>p\<in>set pats. Match p (Base path) \<or> Contains path p)"
  by (induction pats) auto

subsection \<open>The example trees\<close>

lemma default_exts:
  "main_validExts (default_Flags n) ''.jpg'' = Some True"
  "main_excludePatterns (default_Flags n) = [''.*'']"
  by (simp_all add: main_validExts_def main_excludePatterns_def default_Flags_def add_exts_def
      flag_items_def TrimSpace_def isSpace_def ToLower_def lower_byte_def)

lemma git_paths:
  "Join [''/'', ''.git''] = ''/.git''" "Join [''/'', ''photos''] = ''/photos''"
  "Join [''/.git'', ''x.jpg''] = ''/.git/x.jpg''" "Join [''/photos'', ''y.jpg''] = ''/photos/y.jpg''"
  by (simp_all add: Clean_def Separator_def)

lemma git_excluded:
  "shouldExclude ''/'' [''.*''] = False" "shouldExclude ''/.git'' [''.*''] = True"
  "shouldExclude ''/photos'' [''.*''] = False" "shouldExclude ''/photos/y.jpg'' [''.*''] = False"
  "shouldExclude ''/.git/x.jpg'' [''.*''] = False"
  by (simp_all add: Match_def pat_step_def Base_def Separator_def)

lemma git_exts:
  "ToLower (Ext ''/photos/y.jpg'') = ''.jpg''" "ToLower (Ext ''/.git/x.jpg'') = ''.jpg''"
  by (simp_all add: Ext_def ToLower_def lower_byte_def Separator_def)

lemma git_candidates:
  "candidates git_tree ''/'' True [''.*''] = [''/photos/y.jpg'']"
  by (simp add: candidates_def git_tree_def git_paths git_excluded del: Join.simps shouldExclude.simps)

lemma git_tree_files:
  "tree_files git_tree ''/'' = [''/.git/x.jpg'', ''/photos/y.jpg'']"
  by (simp add: tree_files_def git_tree_def git_paths del: Join.simps)

lemma git_accepted:
  "accepted (main_validExts (default_Flags n)) [''.*''] ''/photos/y.jpg''"
  "accepted (main_validExts (default_Flags n)) [''.*''] ''/.git/x.jpg''"
  by (simp_all add: accepted_def git_excluded git_exts default_exts del: shouldExclude.simps)

lemma locked_unreadable: "unreadable (tree (quiet_env locked_tree))"
  by (simp add: quiet_env_def locked_tree_def)

lemma locked_walk:
  "walkFiles (quiet_env locked_tree) ''/src'' v r pats world0 = ([], world0)"
  "walkFiles_cfg (quiet_env locked_tree) ''/src'' cfg world0 = ([], world0)"
  by (simp_all add: walkFiles_eq walkFiles_cfg_eq candidates_unreadable [OF locked_unreadable])

lemma locked_count:
  "WalkDir locked_tree ''/src'' (count_func v) 0 = (None, 0)"
  by (simp add: WalkDir_def locked_tree_def count_func_def)

lemma one_worker: "[0..<nat 1] = [0]"
  by simp

lemma locked_run:
  "runDedup (quiet_env locked_tree) ''/src'' ''out'' 1 4 v iv r True True False False False pats world0 =
     Returns (None, world0\<lparr>progChan := [progressMessage ''Counting files...'' 0 1 [],
                                           doneMessage (CompleteSummary 0 0 0 0 0)],
                            made_dirs := [''out'']\<rparr>)"
proof -
  have st: "os_Stat (quiet_env locked_tree) ''/src'' = Inr 100"
    and tr: "tree (quiet_env locked_tree) = locked_tree"
    and ex: "NewExiftool (quiet_env locked_tree) = (\<lambda>i. None)"
    and mk: "mkdir_err (quiet_env locked_tree) = (\<lambda>p. None)"
    by (simp_all add: quiet_env_def)
  have ul: "unreadable locked_tree"
    by (simp add: locked_tree_def)
  have wf: "walkFiles (quiet_env locked_tree) ''/src'' v r pats w = ([], w)" for w
    by (simp add: walkFiles_eq tr candidates_unreadable [OF ul])
  have rw: "run_workers (quiet_env locked_tree) ''/src'' 1 [] t True iv w = ([], w)" for t w
    by (simp add: run_workers_def start_worker_def worker_def ex)
  show ?thesis
    by (simp add: runDedup_def Let_def st tr wf rw locked_count deduplicate_Nil copyFiles_Nil
        MkdirAll_def mk send_def world0_def)
qed

text \<open>
  The default pattern \<^verbatim>\<open>.*\<close> glob-matches the base name of the root paths \<^verbatim>\<open>.\<close> and \<^verbatim>\<open>..\<close>,
  so a recursive walk started at the default source root \<^verbatim>\<open>.\<close> prunes the root itself and
  yields nothing, whatever the directory holds.
\<close>

lemma dot_root_is_pruned:
  "shouldExclude ''.'' [''.*'']" "shouldExclude ''..'' [''.*'']"
  "fst (walkFiles (env\<lparr>tree := Present (Directory n ds rerr)\<rparr>) ''.'' validExts True [''.*''] w) = []"
proof -
  show a: "shouldExclude ''.'' [''.*'']"
    by (simp add: Match_def pat_step_def Base_def Separator_def)
  show "shouldExclude ''..'' [''.*'']"
    by (simp add: Match_def pat_step_def Base_def Separator_def)
  show "fst (walkFiles (env\<lparr>tree := Present (Directory n ds rerr)\<rparr>) ''.'' validExts True [''.*''] w) = []"
    using a by (simp add: walkFiles_eq candidates_def del: shouldExclude.simps)
qed

subsection \<open>The claims about the enumerator\<close>

text \<open>
  C5, as it stands, fails: for a root that cannot be read \<^verbatim>\<open>walkFiles\<close> yields nothing and
  leaves the counter of scan failures and the progress channel as they were, in both
  modes, and the run that follows ends with a summary that counts no failure.
\<close>

theorem unreadable_root_is_not_reported:
  "unreadable (tree (quiet_env locked_tree)) \<and>
   failedScan world0 = 0 \<and> progChan world0 = [] \<and>
   walkFiles (quiet_env locked_tree) ''/src'' (main_validExts (default_Flags 8)) True
     (main_excludePatterns (default_Flags 8)) world0 = ([], world0) \<and>
   walkFiles (quiet_env locked_tree) ''/src'' (main_validExts (default_Flags 8)) False
     (main_excludePatterns (default_Flags 8)) world0 = ([], world0) \<and>
   runDedup (quiet_env locked_tree) ''/src'' ''out'' 1 4 (main_validExts (default_Flags 8))
     (main_imageExtsMap (default_Flags 8)) True True True False False False
     (main_excludePatterns (default_Flags 8)) world0 =
     Returns (None, world0\<lparr>progChan := [progressMessage ''Counting files...'' 0 1 [],
                                           doneMessage (CompleteSummary 0 0 0 0 0)],
                            made_dirs := [''out'']\<rparr>)"
  by (simp add: locked_unreadable locked_walk locked_run) (simp add: world0_def)


text \<open>
  C5, amended. For a root that cannot be read the enumeration yields no paths, in both
  modes, and nothing is counted as a scan failure; \<^verbatim>\<open>walkFiles\<close> of \<^verbatim>\<open>main.go\<close> leaves
  every package-level variable as it was, and so does the copy that takes a \<^verbatim>\<open>Config\<close> in
  non-recursive mode. Below the root, a \<^verbatim>\<open>ReadDir\<close> error changes nothing but the entries
  delivered: the walk yields what it yields on the tree without the errors, and an
  unreadable subdirectory between its siblings yields what the siblings alone yield.
\<close>

theorem unreadable_root_yields_nothing:
  "(unreadable (tree env) \<longrightarrow>
      walkFiles env source validExts recursive excludePatterns w = ([], w) \<and>
      fst (walkFiles_cfg env source cfg w) = [] \<and>
      failedScan (snd (walkFiles_cfg env source cfg w)) = failedScan w \<and>
      (\<not> Recursive cfg \<longrightarrow> walkFiles_cfg env source cfg w = ([], w))) \<and>
   walkFiles (env\<lparr>tree := Present (forget_errors d)\<rparr>) source validExts True excludePatterns w =
     walkFiles (env\<lparr>tree := Present d\<rparr>) source validExts True excludePatterns w \<and>
   walkFiles (env\<lparr>tree := Present (Directory n (ds1 @ Directory m [] (Some e) # ds2) None)\<rparr>)
       source validExts True excludePatterns w =
     walkFiles (env\<lparr>tree := Present (Directory n (ds1 @ ds2) None)\<rparr>)
       source validExts True excludePatterns w \<and>
   snd (walkFiles env source validExts recursive excludePatterns w) = w"
proof -
  have a: "walkFiles env source validExts recursive excludePatterns w = ([], w) \<and>
      walkFiles_cfg env source cfg w = ([], w)" if "unreadable (tree env)"
    by (simp add: walkFiles_eq walkFiles_cfg_eq candidates_unreadable [OF that])
  have b: "candidates (Present (forget_errors d)) source True excludePatterns =
      candidates (Present d) source True excludePatterns"
    by (simp add: candidates_def unpruned_forget_errors)
  have c: "candidates (Present (Directory n (ds1 @ Directory m [] (Some e) # ds2) None)) source True
        excludePatterns =
      candidates (Present (Directory n (ds1 @ ds2) None)) source True excludePatterns"
    by (simp add: candidates_def unpruned_entries_append)
  from a show ?thesis
    by (simp add: walkFiles_eq b c)
qed

theorem unreadable_root_yields_nothing_witness:
  "unreadable (tree (quiet_env locked_tree)) \<and>
   walkFiles (quiet_env locked_tree) ''/src'' Map.empty True [] world0 = ([], world0) \<and>
   walkFiles (quiet_env locked_tree) ''/src'' Map.empty False [] world0 = ([], world0) \<and>
   Recursive flat_cfg = False \<and>
   walkFiles_cfg (quiet_env locked_tree) ''/src'' flat_cfg world0 = ([], world0)"
proof -
  have r: "Recursive flat_cfg = False"
    by (simp add: flat_cfg_def)
  show ?thesis
    using unreadable_root_yields_nothing [of "quiet_env locked_tree" "''/src''" Map.empty True "[]"
        world0 flat_cfg]
      unreadable_root_yields_nothing [of "quiet_env locked_tree" "''/src''" Map.empty False "[]"
        world0 flat_cfg]
    by (simp add: locked_unreadable r)
qed

text \<open>
  C7, as it stands, fails on its own example: \<^verbatim>\<open>/.git/x.jpg\<close> is a file of the tree, its
  extension is accepted and no exclusion pattern matches its base name or occurs in its
  path, and it is not enumerated, because the directory above it is pruned.
\<close>

theorem accepted_file_below_excluded_directory_not_enumerated:
  "''/.git/x.jpg'' \<in> set (tree_files git_tree ''/'') \<and>
   accepted (main_validExts (default_Flags 8)) (main_excludePatterns (default_Flags 8)) ''/.git/x.jpg'' \<and>
   ''/.git/x.jpg'' \<notin> set (fst (walkFiles (quiet_env git_tree) ''/'' (main_validExts (default_Flags 8))
      True (main_excludePatterns (default_Flags 8)) world0)) \<and>
   fst (walkFiles (quiet_env git_tree) ''/'' (main_validExts (default_Flags 8))
      True (main_excludePatterns (default_Flags 8)) world0) \<noteq>
     filter (accepted (main_validExts (default_Flags 8)) (main_excludePatterns (default_Flags 8)))
       (tree_files git_tree ''/'')"
proof -
  have t: "tree (quiet_env git_tree) = git_tree"
    by (simp add: quiet_env_def)
  show ?thesis
    by (simp add: walkFiles_eq t default_exts git_candidates git_tree_files git_accepted)
qed


text \<open>
  C7, amended. The enumerator yields, in the order of the walk, exactly the accepted paths
  among the candidates: the files that do not lie below an excluded directory in
  recursive mode, the entries of the readable root that are not directories otherwise.
  Every path it yields has its lower-cased extension in the accepted set, and no exclusion
  pattern glob-matches its base name or occurs in it. With the default flags the tree of
  \<^verbatim>\<open>/.git/x.jpg\<close> and \<^verbatim>\<open>/photos/y.jpg\<close> enumerates \<^verbatim>\<open>/photos/y.jpg\<close> alone.
\<close>

theorem enumerated_paths:
  "fst (walkFiles env source validExts recursive excludePatterns w) =
     filter (accepted validExts excludePatterns)
       (candidates (tree env) source recursive excludePatterns) \<and>
   (p \<in> set (fst (walkFiles env source validExts recursive excludePatterns w)) \<longrightarrow>
      validExts (ToLower (Ext p)) = Some True \<and>
      \<not> (\<exists>pattern\<in>set excludePatterns.
           Match pattern (Base p) \<or> (\<exists>pre suf. p = pre @ pattern @ suf))) \<and>
   fst (walkFiles (quiet_env git_tree) ''/'' (main_validExts (default_Flags numCPU))
      True (main_excludePatterns (default_Flags numCPU)) world0) = [''/photos/y.jpg'']"
proof -
  have t: "tree (quiet_env git_tree) = git_tree"
    by (simp add: quiet_env_def)
  have ex: "fst (walkFiles (quiet_env git_tree) ''/'' (main_validExts (default_Flags numCPU))
      True (main_excludePatterns (default_Flags numCPU)) world0) = [''/photos/y.jpg'']"
    by (simp add: walkFiles_eq t default_exts git_candidates git_accepted)
  have snd: "validExts (ToLower (Ext p)) = Some True \<and>
      \<not> (\<exists>pattern\<in>set excludePatterns.
           Match pattern (Base p) \<or> (\<exists>pre suf. p = pre @ pattern @ suf))"
    if "p \<in> set (fst (walkFiles env source validExts recursive excludePatterns w))"
    using accepted_sound [OF that] by (simp add: shouldExclude_iff Contains_iff)
  from ex snd show ?thesis
    by (simp add: walkFiles_eq)
qed

theorem enumerated_paths_witness:
  "''/photos/y.jpg'' \<in> set (fst (walkFiles (quiet_env git_tree) ''/'' (main_validExts (default_Flags 8))
      True (main_excludePatterns (default_Flags 8)) world0)) \<and>
   main_validExts (default_Flags 8) (ToLower (Ext ''/photos/y.jpg'')) = Some True \<and>
   \<not> Match ''.*'' (Base ''/photos/y.jpg'') \<and>
   candidates git_tree ''/'' True [''.*''] = [''/photos/y.jpg'']"
proof -
  have t: "tree (quiet_env git_tree) = git_tree"
    by (simp add: quiet_env_def)
  have e: "fst (walkFiles (quiet_env git_tree) ''/'' (main_validExts (default_Flags 8))
      True (main_excludePatterns (default_Flags 8)) world0) = [''/photos/y.jpg'']"
    using enumerated_paths [of "quiet_env git_tree" "''/''" "main_validExts (default_Flags 8)" True
        "main_excludePatterns (default_Flags 8)" world0 "''/photos/y.jpg''" 8]
    by blast
  have m: "main_validExts (default_Flags 8) (ToLower (Ext ''/photos/y.jpg'')) = Some True \<and>
      \<not> (\<exists>pattern\<in>set (main_excludePatterns (default_Flags 8)).
           Match pattern (Base ''/photos/y.jpg'') \<or> (\<exists>pre suf. ''/photos/y.jpg'' = pre @ pattern @ suf))"
    using enumerated_paths [of "quiet_env git_tree" "''/''" "main_validExts (default_Flags 8)" True
        "main_excludePatterns (default_Flags 8)" world0 "''/photos/y.jpg''" 8] e
    by simp
  from e m show ?thesis
    by (simp add: default_exts git_candidates)
qed

section \<open>The worker, the copy stage and the run\<close>

subsection \<open>Records built by the worker\<close>

lemma worker_step_ok:
  "os_Stat env path = Inr sz \<Longrightarrow>
     worker_step env source tot checkMeta stg iv rw path =
       (fst rw @ [\<lparr>Path = path,
               RelPath = (case Rel source path of None \<Rightarrow> Base path | Some r \<Rightarrow> r),
               Size = sz,
               HasMeta = snd (if checkMeta then getCreationDate env path else (0, False)),
               BaseName = TrimSuffix (Base path) (Ext path),
               CreationDate = fst (if checkMeta then getCreationDate env path else (0, False)),
               IsImage = (iv (ToLower (Ext path)) = Some True)\<rparr>],
        send (progressMessage stg (processed (snd rw) + 1) tot path)
          ((snd rw)\<lparr>processed := processed (snd rw) + 1\<rparr>))"
  by (simp add: worker_step_def Let_def)

lemma worker_step_failed:
  "os_Stat env path = Inl err \<Longrightarrow>
     worker_step env source tot checkMeta stg iv rw path =
       (fst rw, send (errorMessage path (Error err)) ((snd rw)\<lparr>failedScan := failedScan (snd rw) + 1\<rparr>))"
  by (simp add: worker_step_def)

lemma case_names:
  "TrimSuffix (Base ''/src/IMG_001.JPG'') (Ext ''/src/IMG_001.JPG'') = ''IMG_001''"
  "TrimSuffix (Base ''/src/img_001.jpg'') (Ext ''/src/img_001.jpg'') = ''img_001''"
  "TrimSuffix (Base ''a.b.jpg'') (Ext ''a.b.jpg'') = ''a.b''"
  by (simp_all add: TrimSuffix_def HasSuffix_def Base_def Ext_def Separator_def)

lemma case_exts:
  "ToLower (Ext ''/src/IMG_001.JPG'') = ''.jpg''" "ToLower (Ext ''/src/img_001.jpg'') = ''.jpg''"
  by (simp_all add: Ext_def ToLower_def lower_byte_def Separator_def)

lemma case_paths:
  "Join [''/src'', ''IMG_001.JPG''] = ''/src/IMG_001.JPG''"
  "Join [''/src'', ''img_001.jpg''] = ''/src/img_001.jpg''"
  by (simp_all add: Clean_def Separator_def)

lemma case_excluded:
  "shouldExclude ''/src'' [''.*''] = False"
  "shouldExclude ''/src/IMG_001.JPG'' [''.*''] = False"
  "shouldExclude ''/src/img_001.jpg'' [''.*''] = False"
  by (simp_all add: Match_def pat_step_def Base_def Separator_def)

lemma case_accepted:
  "accepted (main_validExts (default_Flags n)) [''.*''] ''/src/IMG_001.JPG''"
  "accepted (main_validExts (default_Flags n)) [''.*''] ''/src/img_001.jpg''"
  by (simp_all add: accepted_def case_excluded case_exts default_exts del: shouldExclude.simps)

lemma case_candidates:
  "candidates case_tree ''/src'' True [''.*''] = [''/src/IMG_001.JPG'', ''/src/img_001.jpg'']"
  by (simp add: candidates_def case_tree_def case_paths case_excluded
      del: Join.simps shouldExclude.simps)

lemma case_walk:
  "walkFiles (quiet_env case_tree) ''/src'' (main_validExts (default_Flags n)) True [''.*''] w =
     ([''/src/IMG_001.JPG'', ''/src/img_001.jpg''], w)"
proof -
  have t: "tree (quiet_env case_tree) = case_tree"
    by (simp add: quiet_env_def)
  show ?thesis
    by (simp add: walkFiles_eq t case_candidates case_accepted)
qed

lemma case_records:
  "map BaseName (fst (worker (quiet_env case_tree) ''/src'' [''/src/IMG_001.JPG'', ''/src/img_001.jpg'']
      tot checkMeta stg iv ([], w))) = [''IMG_001'', ''img_001'']"
proof -
  have st: "os_Stat (quiet_env case_tree) p = Inr 100" for p
    by (simp add: quiet_env_def)
  show ?thesis
    by (simp add: worker_def worker_step_ok [OF st] case_names)
qed

lemma two_groups:
  "BaseName a \<noteq> BaseName b \<Longrightarrow>
     map fst (fst (deduplicate [a, b] True)) = [BaseName a, BaseName b]"
  by (simp add: deduplicate_def reduce_step_def Let_def)

lemma survivor_of_every_group:
  assumes "a \<in> set xs"
  shows "\<exists>r. map_of (fst (deduplicate xs True)) (BaseName a) = Some r \<and> BaseName r = BaseName a"
proof -
  have "map_of (fst (deduplicate xs True)) (BaseName a) \<noteq> None"
    unfolding survivor_None_iff using assms by (metis imageI)
  then obtain r where r: "map_of (fst (deduplicate xs True)) (BaseName a) = Some r"
    by (cases "map_of (fst (deduplicate xs True)) (BaseName a)") simp_all
  have "BaseName r = BaseName a"
    by (rule conjunct1 [OF conjunct2 [OF survivor_best [OF r]]])
  with r show ?thesis by simp
qed

lemma plan_flags:
  "main_validExts (default_Flags n\<lparr>flag_source := s, flag_planOnly := b, flag_source_Changed := c\<rparr>) =
     main_validExts (default_Flags n)"
  "main_imageExtsMap (default_Flags n\<lparr>flag_source := s, flag_planOnly := b, flag_source_Changed := c\<rparr>) =
     main_imageExtsMap (default_Flags n)"
  "main_excludePatterns (default_Flags n\<lparr>flag_source := s, flag_planOnly := b, flag_source_Changed := c\<rparr>) =
     [''.*'']"
  by (simp_all add: main_validExts_def main_imageExtsMap_def main_excludePatterns_def default_Flags_def)

lemma case_count:
  "WalkDir case_tree ''/src'' (count_func (main_validExts (default_Flags n))) 0 = (None, 2)"
  by (simp add: WalkDir_def case_tree_def count_func_def case_paths case_exts default_exts
      del: Join.simps)

lemma case_workers:
  "map BaseName (fst (run_workers (quiet_env case_tree) ''/src'' 1
      [''/src/IMG_001.JPG'', ''/src/img_001.jpg''] tot checkMeta iv w)) = [''IMG_001'', ''img_001''] \<and>
   processed (snd (run_workers (quiet_env case_tree) ''/src'' 1
      [''/src/IMG_001.JPG'', ''/src/img_001.jpg''] tot checkMeta iv w)) = processed w + 2 \<and>
   failedScan (snd (run_workers (quiet_env case_tree) ''/src'' 1
      [''/src/IMG_001.JPG'', ''/src/img_001.jpg''] tot checkMeta iv w)) = failedScan w"
proof -
  have st: "os_Stat (quiet_env case_tree) p = Inr 100" for p
    by (simp add: quiet_env_def)
  have ex: "NewExiftool (quiet_env case_tree) = (\<lambda>i. None)"
    by (simp add: quiet_env_def)
  show ?thesis
    by (simp add: run_workers_def start_worker_def ex worker_def worker_step_ok [OF st] case_names
        send_def)
qed

lemma two_survivors:
  "map BaseName rs = [a, b] \<Longrightarrow> a \<noteq> b \<Longrightarrow> length (fst (deduplicate rs True)) = 2"
proof -
  assume m: "map BaseName rs = [a, b]" and ne: "a \<noteq> b"
  then obtain x y where rs: "rs = [x, y]" and "BaseName x = a" "BaseName y = b"
    by (cases rs; cases "tl rs") auto
  with ne have "map fst (fst (deduplicate [x, y] True)) = [BaseName x, BaseName y]"
    by (simp add: two_groups)
  then have "length (map fst (fst (deduplicate [x, y] True))) = 2"
    by simp
  with rs show ?thesis by simp
qed

lemma case_runDedup:
  "\<exists>w. runDedup (quiet_env case_tree) ''/src'' d 1 cp (main_validExts (default_Flags n)) iv True cm
          True True od vb [''.*''] w0 = Returns (None, w) \<and>
        processed w = processed w0 + 2 \<and> unique w = 2 \<and> failedScan w = failedScan w0"
proof -
  have st: "os_Stat (quiet_env case_tree) ''/src'' = Inr 100"
    and tr: "tree (quiet_env case_tree) = case_tree"
    by (simp_all add: quiet_env_def)
  define w1 where "w1 = w0\<lparr>progChan := [progressMessage ''Counting files...'' 0 1 []]\<rparr>"
  define rw where "rw = run_workers (quiet_env case_tree) ''/src'' 1
      [''/src/IMG_001.JPG'', ''/src/img_001.jpg''] 2 cm iv w1"
  define ds where "ds = deduplicate (fst rw) True"
  define w2 where "w2 = (snd rw)\<lparr>unique := of_nat (length (fst ds))\<rparr>"
  have run: "runDedup (quiet_env case_tree) ''/src'' d 1 cp (main_validExts (default_Flags n)) iv True cm
      True True od vb [''.*''] w0 =
      Returns (None, send (doneMessage (PlanSummary (processed w2) (unique w2) (snd ds))) w2)"
    by (simp add: runDedup_def Let_def st tr case_count case_walk w1_def rw_def ds_def w2_def)
  have names: "map BaseName (fst rw) = [''IMG_001'', ''img_001'']"
    and pr: "processed (snd rw) = processed w1 + 2"
    and fs: "failedScan (snd rw) = failedScan w1"
    unfolding rw_def using case_workers [of 2 cm iv w1] by blast+
  have two: "length (fst ds) = 2"
    unfolding ds_def by (rule two_survivors [OF names]) simp
  have "processed w2 = processed w0 + 2" "unique w2 = 2" "failedScan w2 = failedScan w0"
    by (simp_all add: w2_def pr fs two w1_def)
  then show ?thesis
    by (simp add: run send_def)
qed

lemma case_run:
  "\<exists>w. main (quiet_env case_tree)
          (default_Flags 1\<lparr>flag_source := ''/src'', flag_planOnly := True, flag_source_Changed := True\<rparr>)
          world0 = Returns (0, w) \<and>
        processed w = 2 \<and> unique w = 2 \<and> failedScan w = 0"
proof -
  let ?fl = "default_Flags 1\<lparr>flag_source := ''/src'', flag_planOnly := True, flag_source_Changed := True\<rparr>"
  have fl: "flag_showVersion ?fl = False" "flag_source_Changed ?fl = True" "flag_planOnly ?fl = True"
    "flag_source ?fl = ''/src''" "flag_workers ?fl = 1" "flag_noRecursive ?fl = False"
    "flag_noDedup ?fl = False"
    by (simp_all add: default_Flags_def)
  obtain w where w: "runDedup (quiet_env case_tree) ''/src'' (flag_dest ?fl) 1 (flag_copyParallel ?fl)
      (main_validExts (default_Flags 1)) (main_imageExtsMap (default_Flags 1)) True
      (\<not> flag_noMeta ?fl) True True
      (flag_oneDir ?fl) (flag_verbose ?fl) [''.*''] world0 = Returns (None, w)"
    and p: "processed w = processed world0 + 2" "unique w = 2" "failedScan w = failedScan world0"
    using case_runDedup by blast
  have "main (quiet_env case_tree) ?fl world0 = Returns (0, w)"
    unfolding main_def by (simp only: fl plan_flags w simp_thms if_False if_True outcome.case
        prod.case option.case)
  with p show ?thesis
    by (simp add: world0_def)
qed

subsection \<open>What \<^verbatim>\<open>runDedup\<close> returns\<close>








subsection \<open>The example paths of the copy stage\<close>

lemma img_rel:
  "Rel ''/src'' ''/src/a/b/img.jpg'' = Some ''a/b/img.jpg''"
  "Rel ''/src'' ''/src/c/img2.jpg'' = Some ''c/img2.jpg''"
  by (simp_all add: Rel_def Clean_def Separator_def path_elems_def)

lemma img_dest:
  "Join [''dest'', Base ''/src/a/b/img.jpg''] = ''dest/img.jpg''"
  "Join [''dest'', Base ''/src/c/img2.jpg''] = ''dest/img2.jpg''"
  "Join [''dest'', ''a/b/img.jpg''] = ''dest/a/b/img.jpg''"
  "Join [''dest'', ''c/img2.jpg''] = ''dest/c/img2.jpg''"
  by (simp_all add: Clean_def Base_def Separator_def)

lemma img_worker:
  "map (destPath od ''dest'')
     (fst (worker (quiet_env t) ''/src'' [''/src/a/b/img.jpg'', ''/src/c/img2.jpg''] tot cm stg iv ([], w))) =
   (if od then [''dest/img.jpg'', ''dest/img2.jpg''] else [''dest/a/b/img.jpg'', ''dest/c/img2.jpg''])"
proof -
  have st: "os_Stat (quiet_env t) p = Inr 100" for p
    by (simp add: quiet_env_def)
  show ?thesis
    by (simp add: worker_def worker_step_ok [OF st] destPath_def img_rel img_dest del: Join.simps)
qed


lemma img_ab:
  "Path rec_img_a = ''/src/a/img.jpg''" "Path rec_img_b = ''/src/b/img.jpg''"
  "RelPath rec_img_a = ''a/img.jpg''" "RelPath rec_img_b = ''b/img.jpg''"
  "Base ''/src/a/img.jpg'' = ''img.jpg''" "Base ''/src/b/img.jpg'' = ''img.jpg''"
  "Join [''dest'', ''img.jpg''] = ''dest/img.jpg''" "Join [''dest'', ''a/img.jpg''] = ''dest/a/img.jpg''"
  "Dir ''dest/img.jpg'' = ''dest''" "Dir ''dest/a/img.jpg'' = ''dest/a''"
  by (simp_all add: rec_img_a_def rec_img_b_def Base_def Clean_def Dir_def Separator_def)

lemma quiet_ok:
  "open_err (quiet_env t) p = None" "mkdir_err (quiet_env t) p = None"
  "create_err (quiet_env t) p = None" "copy_err (quiet_env t) p = None"
  "file_id (quiet_env t) p = p" "copy_sched (quiet_env t) = []"
  by (simp_all add: quiet_env_def)

lemma world_img_files:
  "files world_img ''/src/a/img.jpg'' = Some ''first''"
  "files world_img ''/src/b/img.jpg'' = Some ''second''"
  "copied world_img = 0" "failedCopy world_img = 0"
  by (simp_all add: world_img_def world0_def)


subsection \<open>The claims about the worker, the copy stage and the run\<close>






text \<open>
  C10. The group key the worker computes is the base name of the path without its final
  extension, with the letter case of the path: \<^verbatim>\<open>IMG_001\<close> for \<^verbatim>\<open>IMG_001.JPG\<close>, \<^verbatim>\<open>img_001\<close>
  for \<^verbatim>\<open>img_001.jpg\<close>, \<^verbatim>\<open>a.b\<close> for \<^verbatim>\<open>a.b.jpg\<close>. Both of the first two paths pass the
  extension filter of the default flags. Records with different group keys each keep a
  survivor of their own, whatever else is reduced; and a run in plan mode over a directory
  that holds \<^verbatim>\<open>IMG_001.JPG\<close> and \<^verbatim>\<open>img_001.jpg\<close> processes two files and ends with two
  unique ones.
\<close>

theorem group_key_is_case_sensitive:
  "(os_Stat env path = Inr sz \<longrightarrow>
      map BaseName (fst (worker_step env source tot checkMeta stg iv (rs, w) path)) =
        map BaseName rs @ [TrimSuffix (Base path) (Ext path)]) \<and>
   TrimSuffix (Base ''/src/IMG_001.JPG'') (Ext ''/src/IMG_001.JPG'') = ''IMG_001'' \<and>
   TrimSuffix (Base ''/src/img_001.jpg'') (Ext ''/src/img_001.jpg'') = ''img_001'' \<and>
   TrimSuffix (Base ''a.b.jpg'') (Ext ''a.b.jpg'') = ''a.b'' \<and>
   accepted (main_validExts (default_Flags n)) (main_excludePatterns (default_Flags n))
     ''/src/IMG_001.JPG'' \<and>
   accepted (main_validExts (default_Flags n)) (main_excludePatterns (default_Flags n))
     ''/src/img_001.jpg'' \<and>
   (a \<in> set xs \<and> b \<in> set xs \<and> BaseName a \<noteq> BaseName b \<longrightarrow>
      (\<exists>ra rb. map_of (fst (deduplicate xs True)) (BaseName a) = Some ra \<and> BaseName ra = BaseName a \<and>
               map_of (fst (deduplicate xs True)) (BaseName b) = Some rb \<and> BaseName rb = BaseName b \<and>
               ra \<noteq> rb)) \<and>
   (\<exists>w'. main (quiet_env case_tree)
            (default_Flags 1\<lparr>flag_source := ''/src'', flag_planOnly := True, flag_source_Changed := True\<rparr>)
            world0 = Returns (0, w') \<and>
         processed w' = 2 \<and> unique w' = 2 \<and> failedScan w' = 0)"
proof -
  have a: "map BaseName (fst (worker_step env source tot checkMeta stg iv (rs, w) path)) =
        map BaseName rs @ [TrimSuffix (Base path) (Ext path)]"
    if "os_Stat env path = Inr sz"
    by (simp add: worker_step_ok [OF that])
  have b: "\<exists>ra rb. map_of (fst (deduplicate xs True)) (BaseName a) = Some ra \<and> BaseName ra = BaseName a \<and>
               map_of (fst (deduplicate xs True)) (BaseName b) = Some rb \<and> BaseName rb = BaseName b \<and>
               ra \<noteq> rb"
    if ax: "a \<in> set xs" and bx: "b \<in> set xs" and nab: "BaseName a \<noteq> BaseName b"
  proof -
    obtain ra where ra: "map_of (fst (deduplicate xs True)) (BaseName a) = Some ra"
      "BaseName ra = BaseName a"
      using survivor_of_every_group [OF ax] by blast
    obtain rb where rb: "map_of (fst (deduplicate xs True)) (BaseName b) = Some rb"
      "BaseName rb = BaseName b"
      using survivor_of_every_group [OF bx] by blast
    have "ra \<noteq> rb"
      using ra(2) rb(2) nab by metis
    with ra rb show ?thesis by blast
  qed
  have c: "accepted (main_validExts (default_Flags n)) (main_excludePatterns (default_Flags n))
        ''/src/IMG_001.JPG''"
    "accepted (main_validExts (default_Flags n)) (main_excludePatterns (default_Flags n))
        ''/src/img_001.jpg''"
    by (simp_all add: default_exts case_accepted)
  from a b c case_run show ?thesis
    by (simp only: case_names simp_thms) blast
qed

theorem group_key_is_case_sensitive_witness:
  "os_Stat (quiet_env case_tree) ''/src/IMG_001.JPG'' = Inr 100 \<and>
   map BaseName (fst (worker_step (quiet_env case_tree) ''/src'' 2 True ''Scanning files...'' Map.empty
       ([], world0) ''/src/IMG_001.JPG'')) = [''IMG_001''] \<and>
   rec_a10 \<in> set [rec_a10, rec_img_a] \<and> rec_img_a \<in> set [rec_a10, rec_img_a] \<and>
   BaseName rec_a10 \<noteq> BaseName rec_img_a \<and>
   (\<exists>ra rb. map_of (fst (deduplicate [rec_a10, rec_img_a] True)) (BaseName rec_a10) = Some ra \<and>
            map_of (fst (deduplicate [rec_a10, rec_img_a] True)) (BaseName rec_img_a) = Some rb \<and>
            ra \<noteq> rb)"
proof -
  have st: "os_Stat (quiet_env case_tree) ''/src/IMG_001.JPG'' = Inr 100"
    by (simp add: quiet_env_def)
  have nb: "BaseName rec_a10 \<noteq> BaseName rec_img_a"
    by (simp add: rec_a10_def rec_img_a_def)
  note t = group_key_is_case_sensitive [where env = "quiet_env case_tree" and path = "''/src/IMG_001.JPG''"
      and sz = 100 and source = "''/src''" and tot = 2 and checkMeta = True
      and stg = "''Scanning files...''" and iv = Map.empty and rs = "[]" and w = world0
      and a = rec_a10 and b = rec_img_a and xs = "[rec_a10, rec_img_a]"]
  have a: "map BaseName (fst (worker_step (quiet_env case_tree) ''/src'' 2 True ''Scanning files...''
      Map.empty ([], world0) ''/src/IMG_001.JPG'')) =
      map BaseName [] @ [TrimSuffix (Base ''/src/IMG_001.JPG'') (Ext ''/src/IMG_001.JPG'')]"
    using conjunct1 [OF t] st by simp
  have "\<exists>ra rb. map_of (fst (deduplicate [rec_a10, rec_img_a] True)) (BaseName rec_a10) = Some ra \<and>
      BaseName ra = BaseName rec_a10 \<and>
      map_of (fst (deduplicate [rec_a10, rec_img_a] True)) (BaseName rec_img_a) = Some rb \<and>
      BaseName rb = BaseName rec_img_a \<and> ra \<noteq> rb"
    by (rule mp [OF conjunct1 [OF conjunct2 [OF conjunct2 [OF conjunct2 [OF conjunct2 [OF conjunct2
        [OF conjunct2 [OF t]]]]]]]]) (simp add: nb)
  then have b: "\<exists>ra rb. map_of (fst (deduplicate [rec_a10, rec_img_a] True)) (BaseName rec_a10) = Some ra \<and>
      map_of (fst (deduplicate [rec_a10, rec_img_a] True)) (BaseName rec_img_a) = Some rb \<and> ra \<noteq> rb"
    by blast
  from a b st nb show ?thesis
    by (simp add: case_names)
qed
end
